theory Spec2Isabelle
  imports Main "HOL-Library.Word" "HOL-Library.Signed_Division"
begin

unbundle bit_operations_syntax

section \<open>Data model of modules/codec/libass.c\<close>

text \<open>
  The C types are modelled as follows. \<open>int\<close> is the mathematical \<open>int\<close>: signed
  overflow is undefined behaviour in C, so theorems that depend on a product staying
  in range carry that as a hypothesis. \<open>unsigned\<close> is \<open>32 word\<close> and \<open>uint8_t\<close> is
  \<open>8 word\<close>, both wrapping. Counters that start at 0 and only go up are \<open>nat\<close>. An array
  is a list; an access outside the array (undefined behaviour in C) or a failed
  \<open>assert\<close> makes the model return \<open>None\<close>. The \<open>next\<close>-linked chain of \<open>ASS_Image\<close> is a
  list, and \<open>NULL\<close> is the empty list.
\<close>

type_synonym u8 = "8 word"
type_synonym u32 = "32 word"

record ASS_Image =
  w :: int
  h :: int
  stride :: int
  bitmap :: "u8 list"
  color :: u32
  dst_x :: int
  dst_y :: int

record rectangle_t =
  x0 :: int
  y0 :: int
  x1 :: int
  y1 :: int

text \<open>
  The fields of \<open>video_format_t\<close> that this file reads or writes (the chroma is written
  once and never read here). The field names carry the prefix \<open>fmt_\<close>.
\<close>

record video_format_t =
  fmt_i_width :: int
  fmt_i_height :: int
  fmt_i_visible_width :: int
  fmt_i_visible_height :: int
  fmt_i_x_offset :: int
  fmt_i_y_offset :: int

text \<open>
  The part of \<open>subpicture_region_t\<close> that this file uses: the position, the format of
  its picture, and plane 0 of the picture (pitch, visible lines, pixel bytes).
\<close>

record subpicture_region_t =
  i_x :: int
  i_y :: int
  format :: video_format_t
  i_pitch :: int
  i_visible_lines :: int
  p_pixels :: "u8 list"

record subpicture_t =
  regions :: "subpicture_region_t list"
  i_original_picture_width :: int
  i_original_picture_height :: int

record vlc_spu_updater_configuration =
  video_src :: video_format_t
  video_dst :: video_format_t
  prev_src :: video_format_t
  prev_dst :: video_format_t

definition INT_MAX :: int where
  "INT_MAX = 2147483647"

definition rd :: "'a list \<Rightarrow> int \<Rightarrow> 'a option" where
  "rd xs i = (if 0 \<le> i \<and> i < int (length xs) then Some (xs ! nat i) else None)"

section \<open>Rectangles\<close>

definition r_create :: "int \<Rightarrow> int \<Rightarrow> int \<Rightarrow> int \<Rightarrow> rectangle_t" where
  "r_create ax ay bx by = \<lparr>x0 = ax, y0 = ay, x1 = bx, y1 = by\<rparr>"

definition r_img :: "ASS_Image \<Rightarrow> rectangle_t" where
  "r_img p_img =
     r_create (dst_x p_img) (dst_y p_img) (dst_x p_img + w p_img) (dst_y p_img + h p_img)"

definition r_add :: "rectangle_t \<Rightarrow> rectangle_t \<Rightarrow> rectangle_t" where
  "r_add r n =
     \<lparr>x0 = min (x0 r) (x0 n), y0 = min (y0 r) (y0 n),
      x1 = max (x1 r) (x1 n), y1 = max (y1 r) (y1 n)\<rparr>"

definition r_surface :: "rectangle_t \<Rightarrow> int" where
  "r_surface r = (x1 r - x0 r) * (y1 r - y0 r)"

definition r_overlap :: "rectangle_t \<Rightarrow> rectangle_t \<Rightarrow> int \<Rightarrow> int \<Rightarrow> bool" where
  "r_overlap a b i_dx i_dy \<longleftrightarrow>
     max (x0 a - i_dx) (x0 b) < min (x1 a + i_dx) (x1 b) \<and>
     max (y0 a - i_dy) (y0 b) < min (y1 a + i_dy) (y1 b)"

section \<open>BuildRegions\<close>

text \<open>
  Lines 570 to 573: the two increments and the names they are stored under. The pair is
  \<open>(i_maxw, i_maxh)\<close>, in the order \<open>r_overlap\<close> receives them at line 605. The division
  is C's, which truncates towards zero.
\<close>

definition tolerances :: "int \<Rightarrow> int \<Rightarrow> int \<times> int" where
  "tolerances i_width i_height =
     (let i_w_inc = max ((i_width + 49) sdiv 50) 32;
          i_h_inc = max ((i_height + 99) sdiv 100) 32;
          i_maxh = i_w_inc;
          i_maxw = i_h_inc
      in (i_maxw, i_maxh))"

text \<open>The test of line 605 between a region and the rectangle of an image.\<close>

definition mergeable :: "int \<Rightarrow> int \<Rightarrow> rectangle_t \<Rightarrow> rectangle_t \<Rightarrow> bool" where
  "mergeable i_width i_height reg r =
     (case tolerances i_width i_height of (i_maxw, i_maxh) \<Rightarrow> r_overlap reg r i_maxw i_maxh)"

text \<open>
  Lines 603 to 613: the loop over the regions \<open>k, k + 1, ...\<close> for the rectangle \<open>r\<close> of one
  image, with the running \<open>i_best\<close> and \<open>i_best_s\<close>. The surface compared is that of \<open>r\<close>.
\<close>

fun find_best ::
  "rectangle_t list \<Rightarrow> rectangle_t \<Rightarrow> int \<Rightarrow> int \<Rightarrow> int \<Rightarrow> int \<Rightarrow> int \<Rightarrow> int" where
  "find_best [] r i_maxw i_maxh k i_best i_best_s = i_best"
| "find_best (reg # region) r i_maxw i_maxh k i_best i_best_s =
     (if \<not> r_overlap reg r i_maxw i_maxh
      then find_best region r i_maxw i_maxh (k + 1) i_best i_best_s
      else
        let s = r_surface r
        in if s < i_best_s
           then find_best region r i_maxw i_maxh (k + 1) k s
           else find_best region r i_maxw i_maxh (k + 1) i_best i_best_s)"

text \<open>
  Lines 593 to 620: one pass over \<open>pp_img\<close>. An entry that finds a region is merged into
  it and set to \<open>NULL\<close>; the regions, \<open>i_used\<close> and \<open>b_ok\<close> are threaded through.
\<close>

fun scan ::
  "ASS_Image option list \<Rightarrow> rectangle_t list \<Rightarrow> int \<Rightarrow> int \<Rightarrow> nat \<Rightarrow> bool
     \<Rightarrow> ASS_Image option list \<times> rectangle_t list \<times> nat \<times> bool" where
  "scan [] region i_maxw i_maxh i_used b_ok = ([], region, i_used, b_ok)"
| "scan (None # pp_img) region i_maxw i_maxh i_used b_ok =
     (case scan pp_img region i_maxw i_maxh i_used b_ok of
        (pp', st) \<Rightarrow> (None # pp', st))"
| "scan (Some p_img # pp_img) region i_maxw i_maxh i_used b_ok =
     (let r = r_img p_img;
          i_best = find_best region r i_maxw i_maxh 0 (- 1) INT_MAX
      in if i_best \<ge> 0
         then
           (case scan pp_img (region[nat i_best := r_add (region ! nat i_best) r])
                   i_maxw i_maxh (i_used + 1) True of
              (pp', st) \<Rightarrow> (None # pp', st))
         else
           (case scan pp_img region i_maxw i_maxh i_used b_ok of
              (pp', st) \<Rightarrow> (Some p_img # pp', st)))"

definition count_img :: "ASS_Image option list \<Rightarrow> nat" where
  "count_img pp_img = length (filter (\<lambda>p. p \<noteq> None) pp_img)"

text \<open>Lines 590 to 621: the \<open>do ... while( b_ok )\<close> loop.\<close>

function absorb ::
  "ASS_Image option list \<Rightarrow> rectangle_t list \<Rightarrow> int \<Rightarrow> int \<Rightarrow> nat
     \<Rightarrow> ASS_Image option list \<times> rectangle_t list \<times> nat" where
  "absorb pp_img region i_maxw i_maxh i_used =
     (case scan pp_img region i_maxw i_maxh i_used False of
        (pp', region', i_used', b_ok) \<Rightarrow>
          if b_ok then absorb pp' region' i_maxw i_maxh i_used' else (pp', region', i_used'))"
  by pat_completeness auto
termination
proof (relation "measure (\<lambda>(pp_img, region, i_maxw, i_maxh, i_used). count_img pp_img)", goal_cases)
  case 1
  show ?case by simp
next
  case 2
  have dec: "scan pp rg mw mh u b = (pp2, rg2, u2, b2) \<Longrightarrow>
               count_img pp2 \<le> count_img pp \<and> (b2 \<and> \<not> b \<longrightarrow> count_img pp2 < count_img pp)"
    for pp rg mw mh u b pp2 rg2 u2 b2
  proof (induction pp rg mw mh u b arbitrary: pp2 rg2 u2 b2 rule: scan.induct)
    case (1 region i_maxw i_maxh i_used b_ok)
    then show ?case by (simp add: count_img_def)
  next
    case (2 pp_img region i_maxw i_maxh i_used b_ok)
    then show ?case by (auto simp: count_img_def split: prod.splits)
  next
    case (3 p_img pp_img region i_maxw i_maxh i_used b_ok)
    then show ?case
      by (fastforce simp: count_img_def Let_def split: prod.splits if_splits)
  qed
  from 2 show ?case by (auto dest: dec [OF sym])
qed

text \<open>
  Lines 630 to 645: the two loops over the pairs \<open>i < j\<close>, with the running
  \<open>(i_best_i, i_best_j, i_best_ds)\<close>.
\<close>

definition merge_step :: "rectangle_t list \<Rightarrow> nat \<Rightarrow> nat \<Rightarrow> int \<times> int \<times> int \<Rightarrow> int \<times> int \<times> int" where
  "merge_step region i j best =
     (case best of
        (i_best_i, i_best_j, i_best_ds) \<Rightarrow>
          let rect = r_add (region ! i) (region ! j);
              ds = r_surface rect - r_surface (region ! i) - r_surface (region ! j)
          in if ds < i_best_ds then (int i, int j, ds) else best)"

definition merge_best :: "rectangle_t list \<Rightarrow> int \<times> int \<times> int" where
  "merge_best region =
     fold (\<lambda>i best. fold (\<lambda>j. merge_step region i j) [i + 1 ..< length region] best)
       [0 ..< length region] (- 1, - 1, INT_MAX)"

text \<open>
  Lines 623 to 657 without the test on the count: the best pair is merged into the
  lower slot, the entries above the higher slot move down by one, and \<open>i_region\<close> drops
  by one.
\<close>

definition collapse :: "rectangle_t list \<Rightarrow> rectangle_t list" where
  "collapse region =
     (case merge_best region of
        (i_best_i, i_best_j, i_best_ds) \<Rightarrow>
          if i_best_j \<ge> 0 \<and> i_best_i \<ge> 0
          then
            let region' = region[nat i_best_i :=
                            r_add (region ! nat i_best_i) (region ! nat i_best_j)]
            in take (nat i_best_j) region' @ drop (nat i_best_j + 1) region'
          else region)"

text \<open>
  Lines 581 to 588: the first entry of \<open>pp_img\<close> that is not \<open>NULL\<close>, and the array with
  that entry set to \<open>NULL\<close>. When every entry is \<open>NULL\<close> the C code reads \<open>pp_img[i_count]\<close>,
  outside the array.
\<close>

fun take_first :: "ASS_Image option list \<Rightarrow> (ASS_Image \<times> ASS_Image option list) option" where
  "take_first [] = None"
| "take_first (None # pp_img) =
     (case take_first pp_img of
        None \<Rightarrow> None
      | Some (p_img, pp') \<Rightarrow> Some (p_img, None # pp'))"
| "take_first (Some p_img # pp_img) = Some (p_img, None # pp_img)"

text \<open>Lines 580 to 657: the body of the outer loop.\<close>

definition build_iter ::
  "int \<Rightarrow> int \<Rightarrow> int \<Rightarrow> ASS_Image option list \<Rightarrow> rectangle_t list \<Rightarrow> nat
     \<Rightarrow> (ASS_Image option list \<times> rectangle_t list \<times> nat) option" where
  "build_iter i_max_region i_maxw i_maxh pp_img region i_used =
     (case take_first pp_img of
        None \<Rightarrow> None
      | Some (p_img, pp1) \<Rightarrow>
          if \<not> int (length region) < i_max_region + 1 then None
          else
            (case absorb pp1 (region @ [r_img p_img]) i_maxw i_maxh (i_used + 1) of
               (pp2, region2, i_used2) \<Rightarrow>
                 Some (pp2,
                       if int (length region2) > i_max_region then collapse region2 else region2,
                       i_used2)))"

text \<open>Lines 578 to 658: the outer loop, run while \<open>i_used < i_count\<close>.\<close>

function build_loop ::
  "int \<Rightarrow> int \<Rightarrow> int \<Rightarrow> nat \<Rightarrow> ASS_Image option list \<Rightarrow> rectangle_t list \<Rightarrow> nat
     \<Rightarrow> rectangle_t list option" where
  "build_loop i_max_region i_maxw i_maxh i_count pp_img region i_used =
     (if i_used < i_count
      then
        (case build_iter i_max_region i_maxw i_maxh pp_img region i_used of
           None \<Rightarrow> None
         | Some (pp', region', i_used') \<Rightarrow>
             build_loop i_max_region i_maxw i_maxh i_count pp' region' i_used')
      else Some region)"
  by pat_completeness auto
termination
proof (relation "measure (\<lambda>(i_max_region, i_maxw, i_maxh, i_count, pp_img, region, i_used).
                   i_count - i_used)", goal_cases)
  case 1
  show ?case by simp
next
  case 2
  have scan_used: "scan pp rg mw mh u b = (pp2, rg2, u2, b2) \<Longrightarrow> u \<le> u2"
    for pp rg mw mh u b pp2 rg2 u2 b2
  proof (induction pp rg mw mh u b arbitrary: pp2 rg2 u2 b2 rule: scan.induct)
    case (1 region i_maxw i_maxh i_used b_ok)
    then show ?case by simp
  next
    case (2 pp_img region i_maxw i_maxh i_used b_ok)
    then show ?case by (auto split: prod.splits)
  next
    case (3 p_img pp_img region i_maxw i_maxh i_used b_ok)
    let ?i = "find_best region (r_img p_img) i_maxw i_maxh 0 (- 1) INT_MAX"
    show ?case
    proof (cases "0 \<le> ?i")
      case True
      obtain pp' rg' u' b' where
        sc: "scan pp_img (region[nat ?i := r_add (region ! nat ?i) (r_img p_img)])
               i_maxw i_maxh (i_used + 1) True = (pp', rg', u', b')"
        by (cases "scan pp_img (region[nat ?i := r_add (region ! nat ?i) (r_img p_img)])
               i_maxw i_maxh (i_used + 1) True") auto
      have "i_used + 1 \<le> u'" using "3.IH"(1) [OF refl refl True sc] .
      moreover have "u2 = u'" using "3.prems" True sc by (simp add: Let_def)
      ultimately show ?thesis by simp
    next
      case False
      obtain pp' rg' u' b' where
        sc: "scan pp_img region i_maxw i_maxh i_used b_ok = (pp', rg', u', b')"
        by (cases "scan pp_img region i_maxw i_maxh i_used b_ok") auto
      have "i_used \<le> u'" using "3.IH"(2) [OF refl refl False sc] .
      moreover have "u2 = u'" using "3.prems" False sc by (simp add: Let_def)
      ultimately show ?thesis by simp
    qed
  qed
  have absorb_used: "absorb pp rg mw mh u = (pp2, rg2, u2) \<Longrightarrow> u \<le> u2"
    for pp rg mw mh u pp2 rg2 u2
  proof (induction pp rg mw mh u arbitrary: pp2 rg2 u2 rule: absorb.induct)
    case (1 pp_img region i_maxw i_maxh i_used)
    obtain pp' region' i_used' b_ok where
      sc: "scan pp_img region i_maxw i_maxh i_used False = (pp', region', i_used', b_ok)"
      by (cases "scan pp_img region i_maxw i_maxh i_used False") auto
    have le: "i_used \<le> i_used'" using scan_used [OF sc] .
    have unf: "absorb pp_img region i_maxw i_maxh i_used =
                 (if b_ok then absorb pp' region' i_maxw i_maxh i_used' else (pp', region', i_used'))"
      by (subst absorb.simps) (simp add: sc)
    show ?case
    proof (cases b_ok)
      case True
      then have "absorb pp' region' i_maxw i_maxh i_used' = (pp2, rg2, u2)"
        using "1.prems" unf by simp
      then have "i_used' \<le> u2" by (rule "1.IH" [OF sc [symmetric] refl refl True])
      then show ?thesis using le by simp
    next
      case False
      then have "u2 = i_used'" using "1.prems" unf by simp
      then show ?thesis using le by simp
    qed
  qed
  have iter_used: "i_used < i_used'"
    if it: "build_iter i_max_region i_maxw i_maxh pp_img region i_used = Some (pp', region', i_used')"
    for i_max_region i_maxw i_maxh pp_img region i_used pp' region' i_used'
  proof -
    obtain p_img pp1 where tf: "take_first pp_img = Some (p_img, pp1)"
      using it by (auto simp: build_iter_def split: option.splits)
    obtain pp2 region2 i_used2 where
      ab: "absorb pp1 (region @ [r_img p_img]) i_maxw i_maxh (i_used + 1) = (pp2, region2, i_used2)"
      by (cases "absorb pp1 (region @ [r_img p_img]) i_maxw i_maxh (i_used + 1)") auto
    have "i_used' = i_used2" using it tf ab by (simp add: build_iter_def split: if_splits)
    then show ?thesis using absorb_used [OF ab] by simp
  qed
  from 2 show ?case by (auto dest: iter_used)
qed

text \<open>
  \<open>BuildRegions\<close>. \<open>calloc_ok\<close> says whether the allocation of \<open>pp_img\<close> succeeds. The
  result is the list \<open>region[0], ..., region[i_region - 1]\<close> that the function copies to
  \<open>p_region\<close>; its length is the returned \<open>i_region\<close>. The array \<open>region\<close> has
  \<open>i_max_region + 1\<close> entries, which C requires to be positive.
\<close>

definition BuildRegions :: "bool \<Rightarrow> int \<Rightarrow> ASS_Image list \<Rightarrow> int \<Rightarrow> int \<Rightarrow> rectangle_t list option" where
  "BuildRegions calloc_ok i_max_region p_img_list i_width i_height =
     (let imgs = filter (\<lambda>p_tmp. w p_tmp > 0 \<and> h p_tmp > 0) p_img_list;
          i_count = length imgs
      in if i_count \<le> 0 then Some []
         else if \<not> calloc_ok then Some []
         else
           (case tolerances i_width i_height of
              (i_maxw, i_maxh) \<Rightarrow>
                if i_max_region + 1 \<le> 0 then None
                else build_loop i_max_region i_maxw i_maxh i_count (map Some imgs) [] 0))"

section \<open>RegionDraw\<close>

text \<open>
  The body of the \<open>x\<close> loop on one destination pixel \<open>(dst[0], dst[1], dst[2], dst[3])\<close>
  (lines 712 to 736). \<open>dst[3]\<close> is stored before the colour channels are divided by it.
\<close>

definition blend_pixel ::
  "u32 \<Rightarrow> u32 \<Rightarrow> u32 \<Rightarrow> u32 \<Rightarrow> u8 \<Rightarrow> u8 \<times> u8 \<times> u8 \<times> u8 \<Rightarrow> u8 \<times> u8 \<times> u8 \<times> u8" where
  "blend_pixel a r g b src dst =
     (case dst of (d0, d1, d2, d3) \<Rightarrow>
        let opacity = (ucast src :: u32) in
        if opacity \<noteq> 0 then
          let i_an = a * opacity div 255;
              i_ao = (ucast d3 :: u32)
          in if i_ao = 0 then (ucast r, ucast g, ucast b, ucast i_an)
             else
               let i_ani = 255 - i_an;
                   n3 = (ucast (255 - (255 - i_ao) * i_ani div 255) :: u8)
               in if n3 \<noteq> 0 then
                    let i_aoni = i_ao * i_ani div 255
                    in (ucast ((ucast d0 * i_aoni + r * i_an) div ucast n3),
                        ucast ((ucast d1 * i_aoni + g * i_an) div ucast n3),
                        ucast ((ucast d2 * i_aoni + b * i_an) div ucast n3),
                        n3)
                  else (d0, d1, d2, n3)
        else dst)"

text \<open>
  The same step on the pixel buffer, at byte offset \<open>d\<close>. A sample of opacity 0 touches
  no memory; any other sample reads and writes the four bytes at \<open>d\<close>.
\<close>

definition blend_at :: "u32 \<Rightarrow> u32 \<Rightarrow> u32 \<Rightarrow> u32 \<Rightarrow> u8 \<Rightarrow> u8 list \<Rightarrow> int \<Rightarrow> u8 list option" where
  "blend_at a r g b src pixels d =
     (if src = 0 then Some pixels
      else if 0 \<le> d \<and> d + 3 < int (length pixels) then
        (case blend_pixel a r g b src
                (pixels ! nat d, pixels ! nat (d + 1), pixels ! nat (d + 2), pixels ! nat (d + 3)) of
           (p0, p1, p2, p3) \<Rightarrow>
             Some (pixels[nat d := p0, nat (d + 1) := p1, nat (d + 2) := p2, nat (d + 3) := p3]))
      else None)"

text \<open>The \<open>x\<close> loop: \<open>n\<close> samples left, \<open>src\<close> and \<open>dst\<close> the two running pointers.\<close>

fun draw_row ::
  "u32 \<Rightarrow> u32 \<Rightarrow> u32 \<Rightarrow> u32 \<Rightarrow> u8 list \<Rightarrow> nat \<Rightarrow> int \<Rightarrow> int \<Rightarrow> u8 list \<Rightarrow> u8 list option" where
  "draw_row a r g b bm 0 src dst pixels = Some pixels"
| "draw_row a r g b bm (Suc n) src dst pixels =
     (case rd bm src of
        None \<Rightarrow> None
      | Some opacity \<Rightarrow>
          (case blend_at a r g b opacity pixels dst of
             None \<Rightarrow> None
           | Some pixels' \<Rightarrow> draw_row a r g b bm n (src + 1) (dst + 4) pixels'))"

text \<open>The \<open>y\<close> loop: \<open>n\<close> rows left, \<open>srcrow\<close> and \<open>dstrow\<close> advance by the two pitches.\<close>

fun draw_rows ::
  "u32 \<Rightarrow> u32 \<Rightarrow> u32 \<Rightarrow> u32 \<Rightarrow> u8 list \<Rightarrow> int \<Rightarrow> int \<Rightarrow> int \<Rightarrow> nat \<Rightarrow> int \<Rightarrow> int \<Rightarrow> u8 list
     \<Rightarrow> u8 list option" where
  "draw_rows a r g b bm iw i_pitch_src i_pitch_dst 0 srcrow dstrow pixels = Some pixels"
| "draw_rows a r g b bm iw i_pitch_src i_pitch_dst (Suc n) srcrow dstrow pixels =
     (case draw_row a r g b bm (nat iw) srcrow dstrow pixels of
        None \<Rightarrow> None
      | Some pixels' \<Rightarrow>
          draw_rows a r g b bm iw i_pitch_src i_pitch_dst n
            (srcrow + i_pitch_src) (dstrow + i_pitch_dst) pixels')"

text \<open>The body of the loop over the images (lines 685 to 741), for one image.\<close>

definition RegionDraw_img :: "subpicture_region_t \<Rightarrow> ASS_Image \<Rightarrow> u8 list \<Rightarrow> u8 list option" where
  "RegionDraw_img p_region p_img pixels =
     (let i_width = fmt_i_width (format p_region);
          i_height = fmt_i_height (format p_region);
          i_dst_x = dst_x p_img - i_x p_region;
          i_dst_y = dst_y p_img - i_y p_region
      in if i_dst_x < 0 \<or> i_dst_x + w p_img > i_width \<or>
            i_dst_y < 0 \<or> i_dst_y + h p_img > i_height
         then Some pixels
         else
           let a = NOT (color p_img) AND 0xff
           in if a = 0 then Some pixels
              else
                let r = drop_bit 24 (color p_img) AND 0xff;
                    g = drop_bit 16 (color p_img) AND 0xff;
                    b = drop_bit 8 (color p_img) AND 0xff
                in draw_rows a r g b (bitmap p_img) (w p_img) (stride p_img) (i_pitch p_region)
                     (nat (h p_img)) 0 (i_dst_y * i_pitch p_region + 4 * i_dst_x) pixels)"

fun draw_imgs :: "subpicture_region_t \<Rightarrow> ASS_Image list \<Rightarrow> u8 list \<Rightarrow> u8 list option" where
  "draw_imgs p_region [] pixels = Some pixels"
| "draw_imgs p_region (p_img # rest) pixels =
     (case RegionDraw_img p_region p_img pixels of
        None \<Rightarrow> None
      | Some pixels' \<Rightarrow> draw_imgs p_region rest pixels')"

text \<open>
  \<open>RegionDraw\<close>: clear \<open>i_pitch * i_visible_lines\<close> bytes, then draw every image of the
  chain in order. The result is the region with its new pixel buffer.
\<close>

definition RegionDraw :: "subpicture_region_t \<Rightarrow> ASS_Image list \<Rightarrow> subpicture_region_t option" where
  "RegionDraw p_region p_img =
     (let n = i_pitch p_region * i_visible_lines p_region
      in if n < 0 \<or> int (length (p_pixels p_region)) < n then None
         else
           (case draw_imgs p_region p_img
                   (replicate (nat n) 0 @ drop (nat n) (p_pixels p_region)) of
              None \<Rightarrow> None
            | Some pixels \<Rightarrow> Some (p_region\<lparr>p_pixels := pixels\<rparr>)))"

section \<open>SubpictureUpdate\<close>

text \<open>
  Lines 485 to 508: one region is allocated and drawn for every rectangle. The allocator
  \<open>subpicture_region_New\<close> is not part of this file and is a parameter; when it fails the
  loop stops and the regions pushed so far stay.
\<close>

fun draw_regions ::
  "(video_format_t \<Rightarrow> subpicture_region_t option) \<Rightarrow> video_format_t \<Rightarrow> ASS_Image list
     \<Rightarrow> rectangle_t list \<Rightarrow> subpicture_region_t list \<Rightarrow> subpicture_region_t list option" where
  "draw_regions subpicture_region_New fmt_region p_img [] rs = Some rs"
| "draw_regions subpicture_region_New fmt_region p_img (rc # region) rs =
     (let fmt = fmt_region
            \<lparr>fmt_i_width := x1 rc - x0 rc, fmt_i_height := y1 rc - y0 rc,
             fmt_i_visible_width := x1 rc - x0 rc, fmt_i_visible_height := y1 rc - y0 rc\<rparr>
      in case subpicture_region_New fmt of
           None \<Rightarrow> Some rs
         | Some r \<Rightarrow>
             (case RegionDraw (r\<lparr>i_x := x0 rc, i_y := y0 rc\<rparr>) p_img of
                None \<Rightarrow> None
              | Some r' \<Rightarrow> draw_regions subpicture_region_New fmt p_img region (rs @ [r'])))"

text \<open>
  \<open>SubpictureUpdate\<close>. The renderer is outside this file: what \<open>ass_render_frame\<close> returns,
  the image chain \<open>p_img\<close> and the flag \<open>i_changed\<close>, are inputs, and so is
  \<open>video_format_IsSimilar\<close>. The calls that configure the renderer change no state of
  the subpicture and are left out. \<open>BuildRegions\<close> writes into an array of 4 rectangles.
\<close>

definition SubpictureUpdate ::
  "(video_format_t \<Rightarrow> video_format_t \<Rightarrow> bool) \<Rightarrow> (video_format_t \<Rightarrow> subpicture_region_t option)
     \<Rightarrow> bool \<Rightarrow> ASS_Image list \<Rightarrow> int \<Rightarrow> vlc_spu_updater_configuration
     \<Rightarrow> subpicture_t \<Rightarrow> subpicture_t option" where
  "SubpictureUpdate video_format_IsSimilar subpicture_region_New calloc_ok p_img i_changed cfg
       p_subpic =
     (let p_fmt_src = video_src cfg;
          p_fmt_dst = video_dst cfg;
          b_fmt_src = (fmt_i_visible_width p_fmt_src \<noteq> fmt_i_visible_width (prev_src cfg) \<or>
                       fmt_i_visible_height p_fmt_src \<noteq> fmt_i_visible_height (prev_src cfg));
          b_fmt_dst = (\<not> video_format_IsSimilar (prev_dst cfg) p_fmt_dst)
      in if i_changed = 0 \<and> \<not> b_fmt_src \<and> \<not> b_fmt_dst \<and>
            ((p_img \<noteq> []) = (regions p_subpic \<noteq> []))
         then Some p_subpic
         else
           let cleared = p_subpic
                 \<lparr>regions := [],
                  i_original_picture_width := fmt_i_visible_width p_fmt_dst,
                  i_original_picture_height := fmt_i_visible_height p_fmt_dst\<rparr>;
               i_max_region = 4
           in case BuildRegions calloc_ok i_max_region p_img
                     (fmt_i_width p_fmt_dst) (fmt_i_height p_fmt_dst) of
                None \<Rightarrow> None
              | Some region \<Rightarrow>
                  if int (length region) > i_max_region then None
                  else if length region \<le> 0 then Some cleared
                  else
                    (case draw_regions subpicture_region_New
                            (p_fmt_dst\<lparr>fmt_i_x_offset := 0, fmt_i_y_offset := 0\<rparr>)
                            p_img region [] of
                       None \<Rightarrow> None
                     | Some rs \<Rightarrow> Some (cleared\<lparr>regions := rs\<rparr>)))"

section \<open>The specification's wording\<close>

text \<open>The blend formulas as the specification words them, on natural numbers.\<close>

definition spec_an :: "nat \<Rightarrow> nat \<Rightarrow> nat" where
  "spec_an alpha opacity = alpha * opacity div 255"

definition spec_new_a :: "nat \<Rightarrow> nat \<Rightarrow> nat" where
  "spec_new_a dst_a an = 255 - (255 - dst_a) * (255 - an) div 255"

definition spec_aoni :: "nat \<Rightarrow> nat \<Rightarrow> nat" where
  "spec_aoni dst_a an = dst_a * (255 - an) div 255"

definition spec_channel :: "nat \<Rightarrow> nat \<Rightarrow> nat \<Rightarrow> nat \<Rightarrow> nat \<Rightarrow> nat" where
  "spec_channel c src_c aoni an new_a = (c * aoni + src_c * an) div new_a"

text \<open>
  The proximity tolerance and the mergeable test as the specification words them:
  \<open>dx = max(ceil(W/50), 32)\<close>, \<open>dy = max(ceil(H/100), 32)\<close>, and two rectangles are
  mergeable when their boxes, each expanded by \<open>(dx, dy)\<close>, overlap strictly on both
  axes. For a positive \<open>b\<close> the ceiling of \<open>a / b\<close> is \<open>(a + b - 1) div b\<close>, since \<open>div\<close>
  rounds down.
\<close>

definition spec_ceil_div :: "int \<Rightarrow> int \<Rightarrow> int" where
  "spec_ceil_div a b = (a + b - 1) div b"

definition spec_dx :: "int \<Rightarrow> int" where
  "spec_dx canvasWidth = max (spec_ceil_div canvasWidth 50) 32"

definition spec_dy :: "int \<Rightarrow> int" where
  "spec_dy canvasHeight = max (spec_ceil_div canvasHeight 100) 32"

definition spec_expand :: "rectangle_t \<Rightarrow> int \<Rightarrow> int \<Rightarrow> rectangle_t" where
  "spec_expand r dx dy = \<lparr>x0 = x0 r - dx, y0 = y0 r - dy, x1 = x1 r + dx, y1 = y1 r + dy\<rparr>"

definition spec_overlap :: "rectangle_t \<Rightarrow> rectangle_t \<Rightarrow> bool" where
  "spec_overlap a b \<longleftrightarrow>
     max (x0 a) (x0 b) < min (x1 a) (x1 b) \<and> max (y0 a) (y0 b) < min (y1 a) (y1 b)"

definition spec_mergeable :: "int \<Rightarrow> int \<Rightarrow> rectangle_t \<Rightarrow> rectangle_t \<Rightarrow> bool" where
  "spec_mergeable canvasWidth canvasHeight a b \<longleftrightarrow>
     spec_overlap (spec_expand a (spec_dx canvasWidth) (spec_dy canvasHeight))
                  (spec_expand b (spec_dx canvasWidth) (spec_dy canvasHeight))"

text \<open>The points of a rectangle, and one rectangle lying inside another.\<close>

definition r_points :: "rectangle_t \<Rightarrow> (int \<times> int) set" where
  "r_points r = {(x, y). x0 r \<le> x \<and> x < x1 r \<and> y0 r \<le> y \<and> y < y1 r}"

definition r_inside :: "rectangle_t \<Rightarrow> rectangle_t \<Rightarrow> bool" where
  "r_inside a b \<longleftrightarrow> x0 b \<le> x0 a \<and> y0 b \<le> y0 a \<and> x1 a \<le> x1 b \<and> y1 a \<le> y1 b"

section \<open>Predicates of the partitioner proofs\<close>

text \<open>
  A proper rectangle has positive width and height. A rectangle is covered by a list of
  regions when one of them contains it. \<open>boxed\<close> and \<open>imgs_boxed\<close> keep the regions and the
  images that are not yet assigned inside a box \<open>B\<close>; \<open>grows\<close> relates the state of the
  partitioner before and after a pass; \<open>cover\<close> says that every image of \<open>F\<close> is still in
  the array or inside a region. \<open>ds_of\<close> is the \<open>ds\<close> of line 636 for the pair \<open>(i, j)\<close>.
\<close>

definition r_proper :: "rectangle_t \<Rightarrow> bool" where
  "r_proper r \<longleftrightarrow> x0 r < x1 r \<and> y0 r < y1 r"

definition covered :: "rectangle_t list \<Rightarrow> rectangle_t \<Rightarrow> bool" where
  "covered region q \<longleftrightarrow> (\<exists>reg \<in> set region. r_inside q reg)"

definition boxed :: "rectangle_t \<Rightarrow> rectangle_t list \<Rightarrow> bool" where
  "boxed B region \<longleftrightarrow> (\<forall>reg \<in> set region. r_proper reg \<and> r_inside reg B)"

definition imgs_boxed :: "rectangle_t \<Rightarrow> ASS_Image option list \<Rightarrow> bool" where
  "imgs_boxed B pp \<longleftrightarrow> (\<forall>p. Some p \<in> set pp \<longrightarrow> 0 < w p \<and> 0 < h p \<and> r_inside (r_img p) B)"

definition grows ::
  "ASS_Image option list \<Rightarrow> rectangle_t list \<Rightarrow> nat
     \<Rightarrow> ASS_Image option list \<Rightarrow> rectangle_t list \<Rightarrow> nat \<Rightarrow> bool" where
  "grows pp region u pp' region' u' \<longleftrightarrow>
     length region' = length region \<and>
     (\<forall>p. Some p \<in> set pp' \<longrightarrow> Some p \<in> set pp) \<and>
     (\<forall>q. covered region q \<longrightarrow> covered region' q) \<and>
     (\<forall>p. Some p \<in> set pp \<longrightarrow> Some p \<in> set pp' \<or> covered region' (r_img p)) \<and>
     u' + count_img pp' = u + count_img pp"

definition ds_of :: "rectangle_t list \<Rightarrow> nat \<Rightarrow> nat \<Rightarrow> int" where
  "ds_of region i j =
     r_surface (r_add (region ! i) (region ! j)) - r_surface (region ! i) - r_surface (region ! j)"

definition best_valid :: "nat \<Rightarrow> int \<times> int \<times> int \<Rightarrow> bool" where
  "best_valid n best \<longleftrightarrow>
     (case best of (bi, bj, ds) \<Rightarrow>
        (bi = - 1 \<and> bj = - 1 \<and> ds = INT_MAX) \<or> (0 \<le> bi \<and> bi < bj \<and> bj < int n \<and> ds < INT_MAX))"

definition best_found :: "nat \<Rightarrow> int \<times> int \<times> int \<Rightarrow> bool" where
  "best_found n best \<longleftrightarrow>
     (case best of (bi, bj, ds) \<Rightarrow> 0 \<le> bi \<and> bi < bj \<and> bj < int n \<and> ds < INT_MAX)"

definition cover :: "ASS_Image set \<Rightarrow> ASS_Image option list \<Rightarrow> rectangle_t list \<Rightarrow> bool" where
  "cover F pp region \<longleftrightarrow> (\<forall>f \<in> F. Some f \<in> set pp \<or> covered region (r_img f))"

text \<open>
  The order of the two loops of lines 630 to 645. \<open>pair_upto n i0 j0 i j\<close>: the pair
  \<open>(i, j)\<close> is visited before the loops reach \<open>(i0, j0)\<close>. \<open>lex_before\<close> is the lexicographic
  order on pairs. \<open>best_upto\<close>: the running best is the first pair of least \<open>ds\<close> among
  the pairs visited so far, if one of them has a \<open>ds\<close> below \<open>INT_MAX\<close>.
\<close>

definition pair_upto :: "nat \<Rightarrow> nat \<Rightarrow> nat \<Rightarrow> nat \<Rightarrow> nat \<Rightarrow> bool" where
  "pair_upto n i0 j0 i j \<longleftrightarrow> i < j \<and> j < n \<and> (i < i0 \<or> i = i0 \<and> j < j0)"

definition lex_before :: "nat \<Rightarrow> nat \<Rightarrow> nat \<Rightarrow> nat \<Rightarrow> bool" where
  "lex_before i' j' i j \<longleftrightarrow> i' < i \<or> i' = i \<and> j' < j"

definition best_upto :: "rectangle_t list \<Rightarrow> nat \<Rightarrow> nat \<Rightarrow> int \<times> int \<times> int \<Rightarrow> bool" where
  "best_upto region i0 j0 best \<longleftrightarrow>
     (best = (- 1, - 1, INT_MAX) \<and>
      (\<forall>i' j'. pair_upto (length region) i0 j0 i' j' \<longrightarrow> INT_MAX \<le> ds_of region i' j')) \<or>
     (\<exists>i j. pair_upto (length region) i0 j0 i j \<and>
        best = (int i, int j, ds_of region i j) \<and> ds_of region i j < INT_MAX \<and>
        (\<forall>i' j'. pair_upto (length region) i0 j0 i' j' \<longrightarrow>
           ds_of region i j \<le> ds_of region i' j' \<and>
           (lex_before i' j' i j \<longrightarrow> ds_of region i j < ds_of region i' j')))"

text \<open>The index of the first region that passes the test of line 605, from index \<open>k\<close> on.\<close>

fun first_overlap :: "rectangle_t list \<Rightarrow> rectangle_t \<Rightarrow> int \<Rightarrow> int \<Rightarrow> int \<Rightarrow> int" where
  "first_overlap [] r i_maxw i_maxh k = - 1"
| "first_overlap (reg # region) r i_maxw i_maxh k =
     (if r_overlap reg r i_maxw i_maxh then k else first_overlap region r i_maxw i_maxh (k + 1))"

text \<open>
  An image at \<open>(x, y)\<close> of width \<open>iw\<close> and height \<open>ih\<close>, for the examples; the
  partitioner reads neither the bitmap nor the colour.
\<close>

definition img :: "int \<Rightarrow> int \<Rightarrow> int \<Rightarrow> int \<Rightarrow> ASS_Image" where
  "img x y iw ih = \<lparr>w = iw, h = ih, stride = iw, bitmap = [], color = 0, dst_x = x, dst_y = y\<rparr>"

section \<open>Byte arithmetic of the blend\<close>

lemma unat_u8_le: "unat (x :: u8) \<le> 255"
  using unsigned_less [of x, where 'a=nat] by simp

lemma unat_ucast_u8_u32: "unat (ucast (x :: u8) :: u32) = unat x"
  by (simp add: unsigned_ucast_eq take_bit_nat_eq_self_iff) (use unat_u8_le [of x] in simp)

lemma unat_ucast_u32_u8: "unat (x :: u32) \<le> 255 \<Longrightarrow> unat (ucast x :: u8) = unat x"
  by (simp add: unsigned_ucast_eq take_bit_nat_eq_self_iff)

lemma unat_u32_mult: 
  assumes "unat (x :: u32) \<le> 65535" "unat (y :: u32) \<le> 255"
  shows "unat (x * y) = unat x * unat y"
proof -
  have "unat x * unat y \<le> 65535 * 255" using assms by (rule mult_le_mono)
  then have "unat x * unat y < 2 ^ LENGTH(32)" by simp
  then show ?thesis by (simp only: unat_mult_lem)
qed

lemma unat_u32_255_minus:
  assumes "unat (x :: u32) \<le> 255"
  shows "unat (255 - x) = 255 - unat x"
proof -
  have "x \<le> 255" using assms by (simp add: word_le_nat_alt)
  then show ?thesis by (simp add: unat_sub)
qed

lemma unat_u32_div255: "unat ((x :: u32) div 255) = unat x div 255"
  by (simp add: unat_div)

lemma unat_u32_add:
  assumes "unat (x :: u32) \<le> 65535" "unat (y :: u32) \<le> 65535"
  shows "unat (x + y) = unat x + unat y"
proof -
  have "unat x + unat y < 2 ^ LENGTH(32)" using assms by simp
  then show ?thesis by (simp only: unat_add_lem)
qed

lemma nat_div_add_le: "(a::nat) div c + b div c \<le> (a + b) div c"
proof -
  have "(a + b) div c = a div c + b div c + (a mod c + b mod c) div c"
    by (rule div_add1_eq)
  then show ?thesis by linarith
qed

lemma nat_mul255_div_le:
  fixes x y :: nat
  assumes "y \<le> 255"
  shows "x * y div 255 \<le> x"
proof -
  have "x * y \<le> x * 255" using assms by simp
  then have "x * y div 255 \<le> x * 255 div 255" by (rule div_le_mono)
  then show ?thesis by simp
qed

lemma spec_an_le: "alpha \<le> 255 \<Longrightarrow> spec_an alpha opacity \<le> opacity"
  unfolding spec_an_def using nat_mul255_div_le [of alpha opacity] by (simp add: mult.commute)

lemma spec_aoni_le: "spec_aoni dst_a an \<le> dst_a"
  unfolding spec_aoni_def by (rule nat_mul255_div_le) simp

lemma spec_new_a_le: "spec_new_a dst_a an \<le> 255"
  unfolding spec_new_a_def by simp

lemma spec_new_a_ge: "dst_a \<le> 255 \<Longrightarrow> dst_a \<le> spec_new_a dst_a an"
  unfolding spec_new_a_def using nat_mul255_div_le [of "255 - an" "255 - dst_a"] by simp

lemma spec_aoni_an_le:
  assumes "ao \<le> 255" "an \<le> 255"
  shows "spec_aoni ao an + an \<le> spec_new_a ao an"
proof -
  have "(255 - ao) * (255 - an) div 255 + ao * (255 - an) div 255
        \<le> ((255 - ao) * (255 - an) + ao * (255 - an)) div 255"
    by (rule nat_div_add_le)
  also have "(255 - ao) * (255 - an) + ao * (255 - an) = 255 * (255 - an)"
  proof -
    have "(255 - ao) + ao = 255" using assms(1) by simp
    then have "((255 - ao) + ao) * (255 - an) = 255 * (255 - an)" by (simp only:)
    then show ?thesis by (simp only: add_mult_distrib)
  qed
  also have "255 * (255 - an) div 255 = 255 - an" by simp
  finally show ?thesis unfolding spec_aoni_def spec_new_a_def using assms(2) by linarith
qed

lemma spec_channel_le:
  assumes "c \<le> 255" "s \<le> 255" "aoni + an \<le> na" 
  shows "spec_channel c s aoni an na \<le> 255"
proof (cases "na = 0")
  case True
  then show ?thesis by (simp add: spec_channel_def)
next
  case False
  have "c * aoni \<le> 255 * aoni" "s * an \<le> 255 * an" using assms by simp_all
  then have "c * aoni + s * an \<le> 255 * aoni + 255 * an" by (rule add_mono)
  also have "\<dots> = 255 * (aoni + an)" by (simp only: add_mult_distrib2)
  also have "\<dots> \<le> 255 * na" using assms(3) by simp
  finally have "(c * aoni + s * an) div na \<le> 255 * na div na" by (rule div_le_mono)
  then show ?thesis using False by (simp add: spec_channel_def)
qed

lemma unat_i_an:
  assumes "unat (a :: u32) \<le> 255"
  shows "unat (a * ucast (src :: u8) div 255) = spec_an (unat a) (unat src)"
proof -
  have "unat (ucast src :: u32) \<le> 255" by (simp only: unat_ucast_u8_u32 unat_u8_le)
  with assms have "unat (a * ucast src) = unat a * unat (ucast src :: u32)"
    by (intro unat_u32_mult) simp_all
  then show ?thesis by (simp only: unat_u32_div255 unat_ucast_u8_u32 spec_an_def)
qed

lemma unat_scaled:
  assumes "unat (x :: u32) \<le> 255" "unat (y :: u32) \<le> 255"
  shows "unat (x * y div 255) = unat x * unat y div 255"
proof -
  have "unat (x * y) = unat x * unat y" using assms by (intro unat_u32_mult) simp_all
  then show ?thesis by (simp only: unat_u32_div255)
qed

lemma unat_new_a:
  assumes "unat (ao :: u32) \<le> 255" "unat (an :: u32) \<le> 255"
  shows "unat (255 - (255 - ao) * (255 - an) div 255) = spec_new_a (unat ao) (unat an)"
proof -
  have 1: "unat (255 - ao) = 255 - unat ao" "unat (255 - an) = 255 - unat an"
    using assms by (simp_all only: unat_u32_255_minus)
  have 2: "unat ((255 - ao) * (255 - an) div 255) = (255 - unat ao) * (255 - unat an) div 255"
    using unat_scaled [of "255 - ao" "255 - an"] 1 by simp
  have "(255 - unat ao) * (255 - unat an) div 255 \<le> 255 - unat ao"
    by (rule nat_mul255_div_le) simp
  then have "(255 - unat ao) * (255 - unat an) div 255 \<le> 255" by linarith
  then have "unat ((255 - ao) * (255 - an) div 255) \<le> 255" by (simp only: 2)
  then have "unat (255 - (255 - ao) * (255 - an) div 255) = 255 - unat ((255 - ao) * (255 - an) div 255)"
    by (rule unat_u32_255_minus)
  then show ?thesis by (simp only: 2 spec_new_a_def)
qed

lemma unat_aoni:
  assumes "unat (ao :: u32) \<le> 255" "unat (an :: u32) \<le> 255"
  shows "unat (ao * (255 - an) div 255) = spec_aoni (unat ao) (unat an)"
proof -
  have 1: "unat (255 - an) = 255 - unat an" using assms by (simp only: unat_u32_255_minus)
  then have "unat (255 - an) \<le> 255" by simp
  with assms(1) have "unat (ao * (255 - an) div 255) = unat ao * unat (255 - an) div 255"
    by (rule unat_scaled)
  then show ?thesis by (simp only: 1 spec_aoni_def)
qed

lemma unat_channel:
  assumes "unat (c :: u32) \<le> 255" "unat (s :: u32) \<le> 255"
    "unat (aoni :: u32) \<le> 255" "unat (an :: u32) \<le> 255"
  shows "unat ((c * aoni + s * an) div n) = spec_channel (unat c) (unat s) (unat aoni) (unat an) (unat n)"
proof -
  have 1: "unat (c * aoni) = unat c * unat aoni" "unat (s * an) = unat s * unat an"
    using assms by (simp_all add: unat_u32_mult)
  have "unat c * unat aoni \<le> 255 * 255" using assms(1,3) by (rule mult_le_mono)
  moreover have "unat s * unat an \<le> 255 * 255" using assms(2,4) by (rule mult_le_mono)
  ultimately have "unat c * unat aoni \<le> 65535" "unat s * unat an \<le> 65535" by simp_all
  then have "unat (c * aoni) \<le> 65535" "unat (s * an) \<le> 65535" by (simp_all only: 1)
  then have "unat (c * aoni + s * an) = unat (c * aoni) + unat (s * an)" by (rule unat_u32_add)
  then show ?thesis by (simp only: unat_div 1 spec_channel_def)
qed

lemma u32_ucast_u8_eq_0: "(ucast (x :: u8) :: u32) = 0 \<longleftrightarrow> x = 0"
  using unat_ucast_u8_u32 [of x] by (metis unat_0_iff)

text \<open>
  The four values that \<open>RegionDraw\<close> decodes from the packed colour are masked with
  \<open>0xff\<close>, so they are at most 255.
\<close>

lemma unat_and_0xff_le: "unat ((x :: u32) AND 0xff) \<le> 255"
  using word_and_le1 [of x "0xff"] by (simp add: word_le_nat_alt)

text \<open>
  The shape of the over branch: with a nonzero sample on a pixel of nonzero alpha, the
  new alpha byte is nonzero, so the three colour channels are divided by it.
\<close>

lemma blend_pixel_over_shape:
  assumes a: "unat a \<le> 255" and src: "src \<noteq> 0" and d3: "d3 \<noteq> 0"
  defines "an \<equiv> spec_an (unat a) (unat src)"
  defines "na \<equiv> spec_new_a (unat d3) an"
  defines "aoni \<equiv> spec_aoni (unat d3) an"
  shows "\<exists>i_an i_aoni n3.
           blend_pixel a r g b src (d0, d1, d2, d3) =
             (ucast ((ucast d0 * i_aoni + r * i_an) div ucast n3),
              ucast ((ucast d1 * i_aoni + g * i_an) div ucast n3),
              ucast ((ucast d2 * i_aoni + b * i_an) div ucast n3), n3) \<and>
           unat i_an = an \<and> unat i_aoni = aoni \<and> unat n3 = na \<and> an \<le> 255"
proof -
  define i_an where "i_an = a * (ucast src :: u32) div 255"
  define i_ao where "i_ao = (ucast d3 :: u32)"
  define n3w where "n3w = 255 - (255 - i_ao) * (255 - i_an) div 255"
  define n3 where "n3 = (ucast n3w :: u8)"
  define i_aoni where "i_aoni = i_ao * (255 - i_an) div 255"
  have op0: "(ucast src :: u32) \<noteq> 0" using src by (simp add: u32_ucast_u8_eq_0)
  have ao0: "i_ao \<noteq> 0" unfolding i_ao_def using d3 by (simp add: u32_ucast_u8_eq_0)
  have u_an: "unat i_an = an" unfolding i_an_def an_def using a by (rule unat_i_an)
  have an255: "an \<le> 255"
    using spec_an_le [OF a, of "unat src"] unat_u8_le [of src] unfolding an_def by linarith
  have u_ao: "unat i_ao = unat d3" unfolding i_ao_def by (rule unat_ucast_u8_u32)
  have ao255: "unat i_ao \<le> 255" unfolding u_ao by (rule unat_u8_le)
  have u_n3w: "unat n3w = na"
    unfolding n3w_def na_def using unat_new_a [of i_ao i_an] ao255 an255 u_an u_ao by simp
  have na255: "na \<le> 255" unfolding na_def by (rule spec_new_a_le)
  have u_n3: "unat n3 = na" unfolding n3_def using unat_ucast_u32_u8 [of n3w] u_n3w na255 by simp
  have "unat d3 \<le> na" unfolding na_def by (rule spec_new_a_ge) (rule unat_u8_le)
  moreover have "0 < unat d3" using d3 by (simp add: unat_gt_0)
  ultimately have "0 < unat n3" using u_n3 by simp
  then have n30: "n3 \<noteq> 0" by (simp add: unat_gt_0)
  have u_aoni: "unat i_aoni = aoni"
    unfolding i_aoni_def aoni_def using unat_aoni [of i_ao i_an] ao255 an255 u_an u_ao by simp
  have "blend_pixel a r g b src (d0, d1, d2, d3) =
          (ucast ((ucast d0 * i_aoni + r * i_an) div ucast n3),
           ucast ((ucast d1 * i_aoni + g * i_an) div ucast n3),
           ucast ((ucast d2 * i_aoni + b * i_an) div ucast n3), n3)"
    using op0 ao0 n30
    by (simp add: blend_pixel_def Let_def i_an_def [symmetric] i_ao_def [symmetric]
        n3w_def [symmetric] n3_def [symmetric] i_aoni_def [symmetric])
  then show ?thesis using u_an u_aoni u_n3 an255 by blast
qed

lemma unat_channel_byte:
  assumes s: "unat (s :: u32) \<le> 255" and aoni: "unat (i_aoni :: u32) \<le> 255"
    and an: "unat (i_an :: u32) \<le> 255" and sum: "unat i_aoni + unat i_an \<le> unat (n3 :: u8)"
  shows "unat (ucast ((ucast (d :: u8) * i_aoni + s * i_an) div ucast n3) :: u8)
           = spec_channel (unat d) (unat s) (unat i_aoni) (unat i_an) (unat n3)"
proof -
  have d: "unat (ucast d :: u32) \<le> 255" by (simp only: unat_ucast_u8_u32 unat_u8_le)
  have "unat ((ucast d * i_aoni + s * i_an) div ucast n3)
          = spec_channel (unat (ucast d :: u32)) (unat s) (unat i_aoni) (unat i_an) (unat (ucast n3 :: u32))"
    using d s aoni an by (rule unat_channel)
  then have eq: "unat ((ucast d * i_aoni + s * i_an) div ucast n3)
          = spec_channel (unat d) (unat s) (unat i_aoni) (unat i_an) (unat n3)"
    by (simp only: unat_ucast_u8_u32)
  have "spec_channel (unat d) (unat s) (unat i_aoni) (unat i_an) (unat n3) \<le> 255"
    using unat_u8_le s sum by (rule spec_channel_le)
  then have "unat ((ucast d * i_aoni + s * i_an) div ucast n3) \<le> 255" by (simp only: eq)
  then show ?thesis using eq by (simp only: unat_ucast_u32_u8)
qed

lemma blend_pixel_direct:
  assumes a: "unat a \<le> 255" and src: "src \<noteq> 0"
  shows "blend_pixel a r g b src (d0, d1, d2, 0) = (ucast r, ucast g, ucast b, ucast (a * ucast src div 255)) \<and>
         unat (ucast (a * (ucast src :: u32) div 255) :: u8) = spec_an (unat a) (unat src)"
proof -
  have op0: "(ucast src :: u32) \<noteq> 0" using src by (simp add: u32_ucast_u8_eq_0)
  have u_an: "unat (a * (ucast src :: u32) div 255) = spec_an (unat a) (unat src)"
    using a by (rule unat_i_an)
  have "spec_an (unat a) (unat src) \<le> 255"
    using spec_an_le [OF a, of "unat src"] unat_u8_le [of src] by linarith
  then have "unat (a * (ucast src :: u32) div 255) \<le> 255" by (simp only: u_an)
  then have "unat (ucast (a * (ucast src :: u32) div 255) :: u8) = spec_an (unat a) (unat src)"
    using u_an by (simp only: unat_ucast_u32_u8)
  moreover have "blend_pixel a r g b src (d0, d1, d2, 0) =
      (ucast r, ucast g, ucast b, ucast (a * ucast src div 255))"
    using op0 by (simp add: blend_pixel_def Let_def)
  ultimately show ?thesis by simp
qed

section \<open>Skipped images\<close>

lemma draw_imgs_append:
  "draw_imgs p_region (xs @ ys) pixels =
     (case draw_imgs p_region xs pixels of None \<Rightarrow> None | Some p \<Rightarrow> draw_imgs p_region ys p)"
  by (induction xs arbitrary: pixels) (simp_all split: option.split)

lemma draw_imgs_skip:
  assumes "\<And>pixels. RegionDraw_img p_region p_img pixels = Some pixels"
  shows "draw_imgs p_region (before @ p_img # rest) pixels = draw_imgs p_region (before @ rest) pixels"
  by (simp add: draw_imgs_append assms split: option.split)

lemma RegionDraw_skip:
  assumes "\<And>pixels. RegionDraw_img p_region p_img pixels = Some pixels"
  shows "RegionDraw p_region (before @ p_img # rest) = RegionDraw p_region (before @ rest)"
  unfolding RegionDraw_def by (simp only: draw_imgs_skip [OF assms])

lemma inverted_alpha_zero:
  assumes "(c :: u32) AND 0xff = 0xff"
  shows "NOT c AND 0xff = 0"
proof -
  have "NOT c AND 0xff = NOT c AND (c AND 0xff)" by (simp only: assms)
  also have "\<dots> = (NOT c AND c) AND 0xff" by (simp only: and.assoc)
  also have "\<dots> = 0" by simp
  finally show ?thesis .
qed

section \<open>Properties of the rasterizer\<close>

lemma blend_pixel_transparent_sample: "blend_pixel a r g b 0 dst = dst"
  by (simp add: blend_pixel_def split: prod.split)

text \<open>
  Claim C5. In a blend step with \<open>a\<close>, \<open>r\<close>, \<open>g\<close>, \<open>b\<close> and the opacity sample in 0..255
  and destination bytes in 0..255, the intermediate values \<open>an\<close>, \<open>new_a\<close> and \<open>aoni\<close> and
  every resulting colour channel lie in 0..255, and each byte the code stores, read as a
  number, is exactly the value of the formula: the 32-bit arithmetic does not wrap and
  the narrowing to a byte loses nothing.
\<close>

theorem blend_values_fit_bytes:
  assumes "unat a \<le> 255" and "unat r \<le> 255" and "unat g \<le> 255" and "unat b \<le> 255"
    and "src \<noteq> 0"
  shows "let an = spec_an (unat a) (unat src);
             new_a = spec_new_a (unat d3) an;
             aoni = spec_aoni (unat d3) an
         in an \<le> 255 \<and> new_a \<le> 255 \<and> aoni \<le> 255 \<and>
            spec_channel (unat d0) (unat r) aoni an new_a \<le> 255 \<and>
            spec_channel (unat d1) (unat g) aoni an new_a \<le> 255 \<and>
            spec_channel (unat d2) (unat b) aoni an new_a \<le> 255 \<and>
            (case blend_pixel a r g b src (d0, d1, d2, d3) of
               (e0, e1, e2, e3) \<Rightarrow>
                 if d3 = 0
                 then unat e0 = unat r \<and> unat e1 = unat g \<and> unat e2 = unat b \<and> unat e3 = an
                 else unat e0 = spec_channel (unat d0) (unat r) aoni an new_a \<and>
                      unat e1 = spec_channel (unat d1) (unat g) aoni an new_a \<and>
                      unat e2 = spec_channel (unat d2) (unat b) aoni an new_a \<and>
                      unat e3 = new_a)"
proof -
  define an where "an = spec_an (unat a) (unat src)"
  define new_a where "new_a = spec_new_a (unat d3) an"
  define aoni where "aoni = spec_aoni (unat d3) an"
  have an255: "an \<le> 255"
    using spec_an_le [OF assms(1), of "unat src"] unat_u8_le [of src] unfolding an_def by linarith
  have na255: "new_a \<le> 255" unfolding new_a_def by (rule spec_new_a_le)
  have aoni255: "aoni \<le> 255"
    using spec_aoni_le [of "unat d3" an] unat_u8_le [of d3] unfolding aoni_def by linarith
  have sum: "aoni + an \<le> new_a" unfolding aoni_def new_a_def
    by (rule spec_aoni_an_le) (rule unat_u8_le, rule an255)
  have ch: "spec_channel (unat d) s aoni an new_a \<le> 255" if "s \<le> 255" for d :: u8 and s
    using unat_u8_le that sum by (rule spec_channel_le)
  have res: "case blend_pixel a r g b src (d0, d1, d2, d3) of
               (e0, e1, e2, e3) \<Rightarrow>
                 if d3 = 0
                 then unat e0 = unat r \<and> unat e1 = unat g \<and> unat e2 = unat b \<and> unat e3 = an
                 else unat e0 = spec_channel (unat d0) (unat r) aoni an new_a \<and>
                      unat e1 = spec_channel (unat d1) (unat g) aoni an new_a \<and>
                      unat e2 = spec_channel (unat d2) (unat b) aoni an new_a \<and>
                      unat e3 = new_a"
  proof (cases "d3 = 0")
    case True
    show ?thesis
      using blend_pixel_direct [OF assms(1) assms(5), of r g b d0 d1 d2] True assms(2-4)
      by (simp add: unat_ucast_u32_u8 an_def)
  next
    case False
    obtain i_an i_aoni n3 where
      eq: "blend_pixel a r g b src (d0, d1, d2, d3) =
             (ucast ((ucast d0 * i_aoni + r * i_an) div ucast n3),
              ucast ((ucast d1 * i_aoni + g * i_an) div ucast n3),
              ucast ((ucast d2 * i_aoni + b * i_an) div ucast n3), n3)"
      and u: "unat i_an = an" "unat i_aoni = aoni" "unat n3 = new_a"
      using blend_pixel_over_shape [OF assms(1) assms(5) False, of r g b d0 d1 d2]
      unfolding an_def new_a_def aoni_def by blast
    have c: "unat (ucast ((ucast d * i_aoni + s * i_an) div ucast n3) :: u8)
               = spec_channel (unat d) (unat s) aoni an new_a" if "unat s \<le> 255" for d :: u8 and s :: u32
      using unat_channel_byte [of s i_aoni i_an n3 d] that aoni255 an255 sum u by simp
    show ?thesis using False eq c [OF assms(2)] c [OF assms(3)] c [OF assms(4)] u(3) by simp
  qed
  show ?thesis
    using an255 na255 aoni255 ch [OF assms(2)] ch [OF assms(3)] ch [OF assms(4)] res
    unfolding Let_def an_def [symmetric] new_a_def [symmetric] aoni_def [symmetric]
    by blast
qed

theorem blend_values_fit_bytes_witness:
  "unat (255 :: u32) \<le> 255 \<and> unat (200 :: u32) \<le> 255 \<and> unat (100 :: u32) \<le> 255 \<and>
   unat (50 :: u32) \<le> 255 \<and> (128 :: u8) \<noteq> 0 \<and>
   (case blend_pixel 255 200 100 50 128 (10, 20, 30, 40) of
      (e0, e1, e2, e3) \<Rightarrow> unat e0 = 174 \<and> unat e1 = 89 \<and> unat e2 = 47 \<and> unat e3 = 148)"
proof -
  have h: "unat (255 :: u32) \<le> 255" "unat (200 :: u32) \<le> 255" "unat (100 :: u32) \<le> 255"
    "unat (50 :: u32) \<le> 255" "(128 :: u8) \<noteq> 0"
    by simp_all
  have v: "spec_an 255 128 = 128" "spec_new_a 40 128 = 148" "spec_aoni 40 128 = 19"
    "spec_channel 10 200 19 128 148 = 174" "spec_channel 20 100 19 128 148 = 89"
    "spec_channel 30 50 19 128 148 = 47"
    by (simp_all add: spec_an_def spec_new_a_def spec_aoni_def spec_channel_def)
  show ?thesis
    using blend_values_fit_bytes [OF h, where ?d0.0=10 and ?d1.0=20 and ?d2.0=30 and ?d3.0=40] h
    by (simp add: Let_def v split: prod.splits)
qed

text \<open>
  Claim C8. A sample of nonzero opacity on a destination pixel of alpha 0 writes exactly
  \<open>(r, g, b, an)\<close> with \<open>an = alpha * opacity / 255\<close>. Scenario A: one image of width 2
  and height 1, opacity row 255, 128, colour (200, 100, 50) with inverted alpha 0, on a
  zeroed 2 by 1 region, gives the pixels (200, 100, 50, 255) and (200, 100, 50, 128).
\<close>

theorem direct_write_on_transparent_pixel:
  assumes "unat a \<le> 255" and "unat r \<le> 255" and "unat g \<le> 255" and "unat b \<le> 255"
    and "src \<noteq> 0"
  shows "(case blend_pixel a r g b src (d0, d1, d2, 0) of
            (e0, e1, e2, e3) \<Rightarrow>
              unat e0 = unat r \<and> unat e1 = unat g \<and> unat e2 = unat b \<and>
              unat e3 = spec_an (unat a) (unat src)) \<and>
         map_option p_pixels
           (RegionDraw
              \<lparr>i_x = 0, i_y = 0, format = \<lparr>fmt_i_width = 2, fmt_i_height = 1, fmt_i_visible_width = 2,
          fmt_i_visible_height = 1, fmt_i_x_offset = 0, fmt_i_y_offset = 0\<rparr>, i_pitch = 8,
                 i_visible_lines = 1, p_pixels = [0, 0, 0, 0, 0, 0, 0, 0]\<rparr>
              [\<lparr>w = 2, h = 1, stride = 2, bitmap = [255, 128], color = 0xC8643200,
                 dst_x = 0, dst_y = 0\<rparr>])
           = Some [200, 100, 50, 255, 200, 100, 50, 128]"
proof -
  have "case blend_pixel a r g b src (d0, d1, d2, 0) of
            (e0, e1, e2, e3) \<Rightarrow>
              unat e0 = unat r \<and> unat e1 = unat g \<and> unat e2 = unat b \<and>
              unat e3 = spec_an (unat a) (unat src)"
    using blend_pixel_direct [OF assms(1) assms(5), of r g b d0 d1 d2] assms(2-4)
    by (simp add: unat_ucast_u32_u8)
  moreover have "map_option p_pixels
           (RegionDraw
              \<lparr>i_x = 0, i_y = 0, format = \<lparr>fmt_i_width = 2, fmt_i_height = 1, fmt_i_visible_width = 2,
          fmt_i_visible_height = 1, fmt_i_x_offset = 0, fmt_i_y_offset = 0\<rparr>, i_pitch = 8,
                 i_visible_lines = 1, p_pixels = [0, 0, 0, 0, 0, 0, 0, 0]\<rparr>
              [\<lparr>w = 2, h = 1, stride = 2, bitmap = [255, 128], color = 0xC8643200,
                 dst_x = 0, dst_y = 0\<rparr>])
           = Some [200, 100, 50, 255, 200, 100, 50, 128]"
    by code_simp
  ultimately show ?thesis by (rule conjI)
qed

theorem direct_write_on_transparent_pixel_witness:
  "unat (255 :: u32) \<le> 255 \<and> unat (200 :: u32) \<le> 255 \<and> unat (100 :: u32) \<le> 255 \<and>
   unat (50 :: u32) \<le> 255 \<and> (128 :: u8) \<noteq> 0 \<and>
   (case blend_pixel 255 200 100 50 128 (9, 9, 9, 0) of
      (e0, e1, e2, e3) \<Rightarrow> unat e0 = 200 \<and> unat e1 = 100 \<and> unat e2 = 50 \<and> unat e3 = 128)"
proof -
  have h: "unat (255 :: u32) \<le> 255" "unat (200 :: u32) \<le> 255" "unat (100 :: u32) \<le> 255"
    "unat (50 :: u32) \<le> 255" "(128 :: u8) \<noteq> 0"
    by simp_all
  have v: "spec_an 255 128 = 128" by (simp add: spec_an_def)
  show ?thesis
    using direct_write_on_transparent_pixel [OF h, where ?d0.0=9 and ?d1.0=9 and ?d2.0=9] h
    by (simp add: v split: prod.splits)
qed

text \<open>
  Claim C10. The alpha byte of a destination pixel never decreases in a blend step. For a
  nonzero destination alpha \<open>ao\<close> and any \<open>an\<close> in 0..255 the formula
  \<open>255 - (255 - ao) * (255 - an) / 255\<close> is at least \<open>ao\<close>, so it is not 0; the code's new
  alpha byte is that value, and the branch for a new alpha of 0 is not taken.
\<close>

theorem blend_alpha_never_decreases:
  assumes "unat a \<le> 255"
  shows "(0 < ao \<and> ao \<le> 255 \<and> an \<le> 255 \<longrightarrow> ao \<le> spec_new_a ao an \<and> spec_new_a ao an \<noteq> 0) \<and>
         (case blend_pixel a r g b src (d0, d1, d2, d3) of
            (e0, e1, e2, e3) \<Rightarrow>
              unat d3 \<le> unat e3 \<and>
              (src \<noteq> 0 \<and> d3 \<noteq> 0 \<longrightarrow>
                 unat e3 = spec_new_a (unat d3) (spec_an (unat a) (unat src)) \<and> e3 \<noteq> 0))"
proof -
  have 1: "0 < ao \<and> ao \<le> 255 \<and> an \<le> 255 \<longrightarrow> ao \<le> spec_new_a ao an \<and> spec_new_a ao an \<noteq> 0"
    using spec_new_a_ge [of ao an] by auto
  have 2: "case blend_pixel a r g b src (d0, d1, d2, d3) of
            (e0, e1, e2, e3) \<Rightarrow>
              unat d3 \<le> unat e3 \<and>
              (src \<noteq> 0 \<and> d3 \<noteq> 0 \<longrightarrow>
                 unat e3 = spec_new_a (unat d3) (spec_an (unat a) (unat src)) \<and> e3 \<noteq> 0)"
  proof (cases "src = 0")
    case True
    then show ?thesis by (simp add: blend_pixel_transparent_sample)
  next
    case src: False
    show ?thesis
    proof (cases "d3 = 0")
      case True
      then show ?thesis by (simp split: prod.split)
    next
      case False
      obtain i_an i_aoni n3 where
        eq: "blend_pixel a r g b src (d0, d1, d2, d3) =
               (ucast ((ucast d0 * i_aoni + r * i_an) div ucast n3),
                ucast ((ucast d1 * i_aoni + g * i_an) div ucast n3),
                ucast ((ucast d2 * i_aoni + b * i_an) div ucast n3), n3)"
        and u: "unat n3 = spec_new_a (unat d3) (spec_an (unat a) (unat src))"
        using blend_pixel_over_shape [OF assms src False, of r g b d0 d1 d2] by blast
      have ge: "unat d3 \<le> unat n3" unfolding u by (rule spec_new_a_ge) (rule unat_u8_le)
      moreover have "0 < unat d3" using False by (simp add: unat_gt_0)
      ultimately have "0 < unat n3" by linarith
      then have "n3 \<noteq> 0" by (simp add: unat_gt_0)
      then show ?thesis using eq u ge by simp
    qed
  qed
  show ?thesis using 1 2 by (rule conjI)
qed

theorem blend_alpha_never_decreases_witness:
  "unat (255 :: u32) \<le> 255 \<and> (0 :: nat) < 40 \<and> (40 :: nat) \<le> 255 \<and> (128 :: nat) \<le> 255 \<and>
   (128 :: u8) \<noteq> 0 \<and> (40 :: u8) \<noteq> 0 \<and>
   (40 :: nat) \<le> spec_new_a 40 128 \<and> spec_new_a 40 128 \<noteq> 0 \<and>
   (case blend_pixel 255 200 100 50 128 (10, 20, 30, 40) of
      (e0, e1, e2, e3) \<Rightarrow> unat (40 :: u8) \<le> unat e3 \<and> unat e3 = 148 \<and> e3 \<noteq> 0)"
proof -
  have h: "unat (255 :: u32) \<le> 255" by simp
  have v: "spec_an 255 128 = 128" "spec_new_a 40 128 = 148"
    by (simp_all add: spec_an_def spec_new_a_def)
  show ?thesis
    using blend_alpha_never_decreases [OF h, where ao=40 and an=128 and r=200 and g=100 and b=50
        and src=128 and ?d0.0=10 and ?d1.0=20 and ?d2.0=30 and ?d3.0=40] h
    by (simp add: v split: prod.splits)
qed

text \<open>
  Claim C7. An image whose rectangle is not entirely inside the region (negative offset
  on an axis, or an extent beyond the width or height) is skipped as a whole: drawing it
  leaves every pixel as it was, and the region drawn with it in the chain is the region
  drawn without it.
\<close>

theorem out_of_bounds_image_skipped:
  assumes "dst_x p_img - i_x p_region < 0 \<or>
           dst_x p_img - i_x p_region + w p_img > fmt_i_width (format p_region) \<or>
           dst_y p_img - i_y p_region < 0 \<or>
           dst_y p_img - i_y p_region + h p_img > fmt_i_height (format p_region)"
  shows "RegionDraw_img p_region p_img pixels = Some pixels \<and>
         RegionDraw p_region (before @ p_img # rest) = RegionDraw p_region (before @ rest)"
proof -
  have "RegionDraw_img p_region p_img px = Some px" for px
    using assms by (simp add: RegionDraw_img_def Let_def)
  then show ?thesis using RegionDraw_skip [of p_region p_img before rest] by simp
qed

theorem out_of_bounds_image_skipped_witness:
  "(1 - 0 + (2 :: int) > 2) \<and>
   RegionDraw_img
     \<lparr>i_x = 0, i_y = 0, format = \<lparr>fmt_i_width = 2, fmt_i_height = 1, fmt_i_visible_width = 2,
          fmt_i_visible_height = 1, fmt_i_x_offset = 0, fmt_i_y_offset = 0\<rparr>, i_pitch = 8,
        i_visible_lines = 1, p_pixels = [0, 0, 0, 0, 0, 0, 0, 0]\<rparr>
     \<lparr>w = 2, h = 1, stride = 2, bitmap = [255, 128], color = 0xC8643200,
        dst_x = 1, dst_y = 0\<rparr>
     [1, 2, 3, 4, 5, 6, 7, 8] = Some [1, 2, 3, 4, 5, 6, 7, 8]"
  using out_of_bounds_image_skipped
    [where p_region = "\<lparr>i_x = 0, i_y = 0, format = \<lparr>fmt_i_width = 2, fmt_i_height = 1, fmt_i_visible_width = 2,
          fmt_i_visible_height = 1, fmt_i_x_offset = 0, fmt_i_y_offset = 0\<rparr>, i_pitch = 8,
        i_visible_lines = 1, p_pixels = [0, 0, 0, 0, 0, 0, 0, 0]\<rparr>"
      and p_img = "\<lparr>w = 2, h = 1, stride = 2, bitmap = [255, 128], color = 0xC8643200,
        dst_x = 1, dst_y = 0\<rparr>"
      and pixels = "[1, 2, 3, 4, 5, 6, 7, 8]"]
  by simp

text \<open>
  Claim C9. An image whose packed colour has the inverted-alpha byte 0xFF, so that the
  decoded alpha \<open>(~color) & 0xff\<close> is 0, is skipped as a whole: drawing it leaves every
  pixel as it was, and the region drawn with it in the chain is the region drawn without
  it.
\<close>

theorem zero_alpha_image_skipped:
  assumes "color p_img AND 0xff = 0xff"
  shows "RegionDraw_img p_region p_img pixels = Some pixels \<and>
         RegionDraw p_region (before @ p_img # rest) = RegionDraw p_region (before @ rest)"
proof -
  have "NOT (color p_img) AND 0xff = 0" using assms by (rule inverted_alpha_zero)
  then have "RegionDraw_img p_region p_img px = Some px" for px
    by (simp add: RegionDraw_img_def Let_def)
  then show ?thesis using RegionDraw_skip [of p_region p_img before rest] by simp
qed

theorem zero_alpha_image_skipped_witness:
  "(0xC86432FF :: u32) AND 0xff = 0xff \<and>
   RegionDraw_img
     \<lparr>i_x = 0, i_y = 0, format = \<lparr>fmt_i_width = 2, fmt_i_height = 1, fmt_i_visible_width = 2,
          fmt_i_visible_height = 1, fmt_i_x_offset = 0, fmt_i_y_offset = 0\<rparr>, i_pitch = 8,
        i_visible_lines = 1, p_pixels = [0, 0, 0, 0, 0, 0, 0, 0]\<rparr>
     \<lparr>w = 2, h = 1, stride = 2, bitmap = [255, 128], color = 0xC86432FF,
        dst_x = 0, dst_y = 0\<rparr>
     [1, 2, 3, 4, 5, 6, 7, 8] = Some [1, 2, 3, 4, 5, 6, 7, 8]"
proof -
  have h: "(0xC86432FF :: u32) AND 0xff = 0xff" by simp
  show ?thesis
    using zero_alpha_image_skipped
      [where p_region = "\<lparr>i_x = 0, i_y = 0, format = \<lparr>fmt_i_width = 2, fmt_i_height = 1, fmt_i_visible_width = 2,
          fmt_i_visible_height = 1, fmt_i_x_offset = 0, fmt_i_y_offset = 0\<rparr>, i_pitch = 8,
          i_visible_lines = 1, p_pixels = [0, 0, 0, 0, 0, 0, 0, 0]\<rparr>"
        and p_img = "\<lparr>w = 2, h = 1, stride = 2, bitmap = [255, 128], color = 0xC86432FF,
          dst_x = 0, dst_y = 0\<rparr>"
        and pixels = "[1, 2, 3, 4, 5, 6, 7, 8]"] h
    by simp
qed

section \<open>Properties of the partitioner\<close>

lemma r_inside_refl: "r_inside a a"
  by (simp add: r_inside_def)

lemma r_inside_trans: "r_inside a b \<Longrightarrow> r_inside b c \<Longrightarrow> r_inside a c"
  by (auto simp: r_inside_def)

lemma r_inside_add1: "r_inside a (r_add a n)"
  by (simp add: r_inside_def r_add_def)

lemma r_inside_add2: "r_inside n (r_add a n)"
  by (simp add: r_inside_def r_add_def)

lemma r_add_inside: "r_inside a c \<Longrightarrow> r_inside n c \<Longrightarrow> r_inside (r_add a n) c"
  by (simp add: r_inside_def r_add_def)

lemma r_add_proper: "r_proper a \<Longrightarrow> r_proper (r_add a n)"
  by (auto simp: r_proper_def r_add_def)

lemma r_img_proper: "0 < w p \<Longrightarrow> 0 < h p \<Longrightarrow> r_proper (r_img p)"
  by (simp add: r_proper_def r_img_def r_create_def)

lemma find_best_range:
  "find_best region r i_maxw i_maxh k i_best i_best_s = i \<Longrightarrow>
     i = i_best \<or> (k \<le> i \<and> i < k + int (length region))"
proof (induction region arbitrary: k i_best i_best_s)
  case Nil
  then show ?case by simp
next
  case (Cons reg region)
  show ?case
  proof (cases "r_overlap reg r i_maxw i_maxh \<and> r_surface r < i_best_s")
    case True
    then have "find_best region r i_maxw i_maxh (k + 1) k (r_surface r) = i"
      using Cons.prems by (simp add: Let_def)
    from Cons.IH [OF this] show ?thesis by auto
  next
    case False
    then have "find_best region r i_maxw i_maxh (k + 1) i_best i_best_s = i"
      using Cons.prems by (auto simp: Let_def split: if_splits)
    from Cons.IH [OF this] show ?thesis by auto
  qed
qed

lemma find_best_index:
  assumes "0 \<le> find_best region r i_maxw i_maxh 0 (- 1) INT_MAX"
  shows "nat (find_best region r i_maxw i_maxh 0 (- 1) INT_MAX) < length region"
  using find_best_range [OF refl, of region r i_maxw i_maxh 0 "- 1" INT_MAX] assms by auto

lemma covered_update:
  assumes "covered region q" and "i < length region"
  shows "covered (region[i := r_add (region ! i) n]) q"
proof -
  obtain reg where reg: "reg \<in> set region" "r_inside q reg" using assms(1) by (auto simp: covered_def)
  then obtain j where j: "j < length region" "region ! j = reg" by (auto simp: in_set_conv_nth)
  show ?thesis
  proof (cases "j = i")
    case True
    have "r_inside q (r_add (region ! i) n)"
      using reg(2) j(2) True r_inside_add1 [of "region ! i" n] by (auto intro: r_inside_trans)
    moreover have "r_add (region ! i) n \<in> set (region[i := r_add (region ! i) n])"
      using assms(2) by (simp add: set_update_memI)
    ultimately show ?thesis by (auto simp: covered_def)
  next
    case False
    then have "(region[i := r_add (region ! i) n]) ! j = reg" using j by simp
    then have "reg \<in> set (region[i := r_add (region ! i) n])"
      using j(1) by (metis length_list_update nth_mem)
    then show ?thesis using reg(2) by (auto simp: covered_def)
  qed
qed

lemma covered_update_new:
  assumes "i < length region"
  shows "covered (region[i := r_add (region ! i) n]) n"
  unfolding covered_def using assms r_inside_add2 [of n "region ! i"]
  by (auto intro!: bexI [of _ "r_add (region ! i) n"] simp: set_update_memI)

lemma count_img_simps [simp]:
  "count_img [] = 0"
  "count_img (None # pp) = count_img pp"
  "count_img (Some p # pp) = Suc (count_img pp)"
  by (simp_all add: count_img_def)

lemma scan_props:
  "scan pp region i_maxw i_maxh u b = (pp', region', u', b') \<Longrightarrow>
     length region' = length region \<and>
     (\<forall>p. Some p \<in> set pp' \<longrightarrow> Some p \<in> set pp) \<and>
     (\<forall>q. covered region q \<longrightarrow> covered region' q) \<and>
     (\<forall>p. Some p \<in> set pp \<longrightarrow> Some p \<in> set pp' \<or> covered region' (r_img p)) \<and>
     u' + count_img pp' = u + count_img pp"
proof (induction pp region i_maxw i_maxh u b arbitrary: pp' region' u' b' rule: scan.induct)
  case (1 region i_maxw i_maxh i_used b_ok)
  then show ?case by simp
next
  case (2 pp_img region i_maxw i_maxh i_used b_ok)
  obtain pp2 where sc: "scan pp_img region i_maxw i_maxh i_used b_ok = (pp2, region', u', b')"
    and pp': "pp' = None # pp2"
    using "2.prems" by (auto split: prod.splits)
  from "2.IH" [OF sc] show ?case unfolding pp' by simp
next
  case (3 p_img pp_img region i_maxw i_maxh i_used b_ok)
  let ?r = "r_img p_img"
  let ?i = "find_best region ?r i_maxw i_maxh 0 (- 1) INT_MAX"
  show ?case
  proof (cases "0 \<le> ?i")
    case True
    let ?region1 = "region[nat ?i := r_add (region ! nat ?i) ?r]"
    obtain pp2 where sc: "scan pp_img ?region1 i_maxw i_maxh (i_used + 1) True = (pp2, region', u', b')"
      and pp': "pp' = None # pp2"
      using "3.prems" True by (auto simp: Let_def split: prod.splits)
    note IH = "3.IH"(1) [OF refl refl True sc]
    have idx: "nat ?i < length region" using True by (rule find_best_index)
    have c1: "covered ?region1 q" if "covered region q" for q
      using that idx by (rule covered_update)
    have c2: "covered ?region1 ?r" using idx by (rule covered_update_new)
    have "length region' = length region" using IH by simp
    moreover have "\<forall>p. Some p \<in> set pp' \<longrightarrow> Some p \<in> set (Some p_img # pp_img)"
      using IH unfolding pp' by auto
    moreover have "\<forall>q. covered region q \<longrightarrow> covered region' q" using IH c1 by blast
    moreover have "\<forall>p. Some p \<in> set (Some p_img # pp_img) \<longrightarrow>
                     Some p \<in> set pp' \<or> covered region' (r_img p)"
      using IH c2 unfolding pp' by auto
    moreover have "u' + count_img pp' = i_used + count_img (Some p_img # pp_img)"
      using IH unfolding pp' by simp
    ultimately show ?thesis by blast
  next
    case False
    obtain pp2 where sc: "scan pp_img region i_maxw i_maxh i_used b_ok = (pp2, region', u', b')"
      and pp': "pp' = Some p_img # pp2"
      using "3.prems" False by (auto simp: Let_def split: prod.splits)
    note IH = "3.IH"(2) [OF refl refl False sc]
    have "\<forall>p. Some p \<in> set pp' \<longrightarrow> Some p \<in> set (Some p_img # pp_img)"
      using IH unfolding pp' by auto
    moreover have "\<forall>p. Some p \<in> set (Some p_img # pp_img) \<longrightarrow>
                     Some p \<in> set pp' \<or> covered region' (r_img p)"
      using IH unfolding pp' by auto
    moreover have "u' + count_img pp' = i_used + count_img (Some p_img # pp_img)"
      using IH unfolding pp' by simp
    ultimately show ?thesis using IH by blast
  qed
qed

lemma boxed_update:
  assumes "boxed B region" and "r_inside n B"
  shows "boxed B (region[i := r_add (region ! i) n])"
proof (cases "i < length region")
  case True
  have "r_proper (r_add (region ! i) n) \<and> r_inside (r_add (region ! i) n) B"
    using assms True by (auto simp: boxed_def intro: r_add_proper r_add_inside)
  then show ?thesis using assms(1) unfolding boxed_def
    by (auto dest!: set_update_subset_insert [THEN subsetD])
next
  case False
  then have "region[i := r_add (region ! i) n] = region" by (intro list_update_beyond) simp
  then show ?thesis using assms(1) by simp
qed

lemma scan_boxed:
  "scan pp region i_maxw i_maxh u b = (pp', region', u', b') \<Longrightarrow>
     boxed B region \<Longrightarrow> imgs_boxed B pp \<Longrightarrow> boxed B region'"
proof (induction pp region i_maxw i_maxh u b arbitrary: pp' region' u' b' rule: scan.induct)
  case (1 region i_maxw i_maxh i_used b_ok)
  then show ?case by simp
next
  case (2 pp_img region i_maxw i_maxh i_used b_ok)
  obtain pp2 where sc: "scan pp_img region i_maxw i_maxh i_used b_ok = (pp2, region', u', b')"
    using "2.prems"(1) by (auto split: prod.splits)
  have "imgs_boxed B pp_img" using "2.prems"(3) by (simp add: imgs_boxed_def)
  from "2.IH" [OF sc "2.prems"(2) this] show ?case .
next
  case (3 p_img pp_img region i_maxw i_maxh i_used b_ok)
  let ?r = "r_img p_img"
  let ?i = "find_best region ?r i_maxw i_maxh 0 (- 1) INT_MAX"
  have tl: "imgs_boxed B pp_img" using "3.prems"(3) by (simp add: imgs_boxed_def)
  have hd: "r_inside ?r B" using "3.prems"(3) by (simp add: imgs_boxed_def)
  show ?case
  proof (cases "0 \<le> ?i")
    case True
    let ?region1 = "region[nat ?i := r_add (region ! nat ?i) ?r]"
    obtain pp2 where sc: "scan pp_img ?region1 i_maxw i_maxh (i_used + 1) True = (pp2, region', u', b')"
      using "3.prems"(1) True by (auto simp: Let_def split: prod.splits)
    have "boxed B ?region1" using "3.prems"(2) hd by (rule boxed_update)
    from "3.IH"(1) [OF refl refl True sc this tl] show ?thesis .
  next
    case False
    obtain pp2 where sc: "scan pp_img region i_maxw i_maxh i_used b_ok = (pp2, region', u', b')"
      using "3.prems"(1) False by (auto simp: Let_def split: prod.splits)
    from "3.IH"(2) [OF refl refl False sc "3.prems"(2) tl] show ?thesis .
  qed
qed

lemma grows_trans:
  assumes "grows pp region u pp1 region1 u1" and "grows pp1 region1 u1 pp2 region2 u2"
  shows "grows pp region u pp2 region2 u2"
  using assms unfolding grows_def by (intro conjI) (simp, blast, blast, blast, simp)

lemma scan_grows:
  "scan pp region i_maxw i_maxh u b = (pp', region', u', b') \<Longrightarrow> grows pp region u pp' region' u'"
  unfolding grows_def by (rule scan_props)

lemma absorb_unfold:
  assumes "scan pp_img region i_maxw i_maxh i_used False = (pp', region', i_used', b_ok)"
  shows "absorb pp_img region i_maxw i_maxh i_used =
           (if b_ok then absorb pp' region' i_maxw i_maxh i_used' else (pp', region', i_used'))"
  by (subst absorb.simps) (simp add: assms)

lemma absorb_grows:
  "absorb pp region i_maxw i_maxh u = (pp2, region2, u2) \<Longrightarrow> grows pp region u pp2 region2 u2"
proof (induction pp region i_maxw i_maxh u arbitrary: pp2 region2 u2 rule: absorb.induct)
  case (1 pp_img region i_maxw i_maxh i_used)
  obtain pp' region' i_used' b_ok where
    sc: "scan pp_img region i_maxw i_maxh i_used False = (pp', region', i_used', b_ok)"
    by (cases "scan pp_img region i_maxw i_maxh i_used False") auto
  note unf = absorb_unfold [OF sc]
  note g = scan_grows [OF sc]
  show ?case
  proof (cases b_ok)
    case True
    then have "absorb pp' region' i_maxw i_maxh i_used' = (pp2, region2, u2)"
      using "1.prems" unf by simp
    then have "grows pp' region' i_used' pp2 region2 u2"
      by (rule "1.IH" [OF sc [symmetric] refl refl True])
    with g show ?thesis by (rule grows_trans)
  next
    case False
    then have "(pp2, region2, u2) = (pp', region', i_used')" using "1.prems" unf by simp
    then show ?thesis using g by simp
  qed
qed

lemma absorb_boxed:
  "absorb pp region i_maxw i_maxh u = (pp2, region2, u2) \<Longrightarrow>
     boxed B region \<Longrightarrow> imgs_boxed B pp \<Longrightarrow> boxed B region2"
proof (induction pp region i_maxw i_maxh u arbitrary: pp2 region2 u2 rule: absorb.induct)
  case (1 pp_img region i_maxw i_maxh i_used)
  obtain pp' region' i_used' b_ok where
    sc: "scan pp_img region i_maxw i_maxh i_used False = (pp', region', i_used', b_ok)"
    by (cases "scan pp_img region i_maxw i_maxh i_used False") auto
  note unf = absorb_unfold [OF sc]
  have bx: "boxed B region'" using sc "1.prems"(2,3) by (rule scan_boxed)
  have ib: "imgs_boxed B pp'"
    using scan_props [OF sc] "1.prems"(3) unfolding imgs_boxed_def by blast
  show ?case
  proof (cases b_ok)
    case True
    then have "absorb pp' region' i_maxw i_maxh i_used' = (pp2, region2, u2)"
      using "1.prems"(1) unf by simp
    then show ?thesis using bx ib by (rule "1.IH" [OF sc [symmetric] refl refl True])
  next
    case False
    then have "region2 = region'" using "1.prems"(1) unf by simp
    then show ?thesis using bx by simp
  qed
qed

lemma take_first_props:
  "take_first pp = Some (p, pp1) \<Longrightarrow>
     Some p \<in> set pp \<and> count_img pp = Suc (count_img pp1) \<and>
     (\<forall>q. Some q \<in> set pp1 \<longrightarrow> Some q \<in> set pp) \<and>
     (\<forall>q. Some q \<in> set pp \<longrightarrow> q = p \<or> Some q \<in> set pp1)"
proof (induction pp arbitrary: pp1 rule: take_first.induct)
  case 1
  then show ?case by simp
next
  case (2 pp_img)
  then obtain pp2 where "take_first pp_img = Some (p, pp2)" "pp1 = None # pp2"
    by (auto split: option.splits)
  with "2.IH" [of pp2] show ?case by auto
next
  case (3 p_img pp_img)
  then show ?case by auto
qed

lemma take_first_Some:
  "0 < count_img pp \<Longrightarrow> \<exists>p pp1. take_first pp = Some (p, pp1)"
proof (induction pp rule: take_first.induct)
  case 1
  then show ?case by simp
next
  case (2 pp_img)
  then show ?case by auto
next
  case (3 p_img pp_img)
  then show ?case by simp
qed

lemma fold_invariant:
  assumes "\<And>x s. x \<in> set xs \<Longrightarrow> P s \<Longrightarrow> P (f x s)" and "P s"
  shows "P (fold f xs s)"
  using assms by (induction xs arbitrary: s) simp_all

lemma merge_step_valid:
  "i < j \<Longrightarrow> j < n \<Longrightarrow> best_valid n best \<Longrightarrow> best_valid n (merge_step region i j best)"
  by (auto simp: merge_step_def best_valid_def Let_def split: prod.splits)

lemma merge_step_found:
  "i < j \<Longrightarrow> j < n \<Longrightarrow> best_found n best \<Longrightarrow> best_found n (merge_step region i j best)"
  by (auto simp: merge_step_def best_found_def Let_def split: prod.splits)

lemma merge_step_finds:
  "i < j \<Longrightarrow> j < n \<Longrightarrow> best_valid n best \<Longrightarrow> ds_of region i j < INT_MAX \<Longrightarrow>
     best_found n (merge_step region i j best)"
  by (auto simp: merge_step_def best_found_def best_valid_def ds_of_def Let_def split: prod.splits)

lemma inner_valid:
  assumes "best_valid n best"
  shows "best_valid n (fold (\<lambda>j. merge_step region i j) [i + 1 ..< n] best)"
  by (rule fold_invariant [where P = "best_valid n"]) (auto intro: merge_step_valid assms)

lemma inner_found:
  assumes "best_found n best"
  shows "best_found n (fold (\<lambda>j. merge_step region i j) [i + 1 ..< n] best)"
  by (rule fold_invariant [where P = "best_found n"]) (auto intro: merge_step_found assms)

lemma merge_best_valid: "best_valid (length region) (merge_best region)"
  unfolding merge_best_def
proof (rule fold_invariant [where P = "best_valid (length region)"])
  show "best_valid (length region) (- 1, - 1, INT_MAX)" by (simp add: best_valid_def)
next
  fix i s
  assume "best_valid (length region) s"
  then show "best_valid (length region)
               (fold (\<lambda>j. merge_step region i j) [i + 1 ..< length region] s)"
    by (rule inner_valid)
qed

lemma merge_best_found:
  assumes "2 \<le> length region" and "ds_of region 0 1 < INT_MAX"
  shows "best_found (length region) (merge_best region)"
proof -
  let ?n = "length region"
  let ?inner = "\<lambda>i best. fold (\<lambda>j. merge_step region i j) [i + 1 ..< ?n] best"
  have n: "0 < ?n" "Suc 0 < ?n" using assms(1) by linarith+
  have up: "[0 ..< ?n] = 0 # [Suc 0 ..< ?n]" using n(1) by (rule upt_conv_Cons)
  have up1: "[Suc 0 ..< ?n] = Suc 0 # [Suc (Suc 0) ..< ?n]" using n(2) by (rule upt_conv_Cons)
  have init: "best_valid ?n (- 1, - 1, INT_MAX)" by (simp add: best_valid_def)
  have "best_found ?n (merge_step region 0 (Suc 0) (- 1, - 1, INT_MAX))"
    using assms by (intro merge_step_finds init) simp_all
  then have "best_found ?n (fold (\<lambda>j. merge_step region 0 j) [Suc (Suc 0) ..< ?n]
                               (merge_step region 0 (Suc 0) (- 1, - 1, INT_MAX)))"
    by (intro fold_invariant [where P = "best_found ?n"]) (auto intro: merge_step_found)
  then have "best_found ?n (fold (\<lambda>j. merge_step region 0 j) [Suc 0 ..< ?n] (- 1, - 1, INT_MAX))"
    by (simp only: up1 fold_simps o_apply)
  then have first: "best_found ?n (?inner 0 (- 1, - 1, INT_MAX))" by simp
  have "best_found ?n (fold ?inner [Suc 0 ..< ?n] (?inner 0 (- 1, - 1, INT_MAX)))"
  proof (rule fold_invariant [where P = "best_found ?n"])
    show "best_found ?n (?inner 0 (- 1, - 1, INT_MAX))" by (rule first)
  next
    fix i s
    assume "best_found ?n s"
    then show "best_found ?n (?inner i s)" by (rule inner_found)
  qed
  then show ?thesis unfolding merge_best_def by (simp only: up fold_simps o_apply)
qed

lemma nth_in_remove:
  assumes "m < length xs" and "m \<noteq> j"
  shows "xs ! m \<in> set (take j xs @ drop (Suc j) xs)"
proof (cases "m < j")
  case True
  then have "take j xs ! m = xs ! m" by simp
  moreover have "m < length (take j xs)" using True assms(1) by simp
  ultimately have "xs ! m \<in> set (take j xs)" by (metis nth_mem)
  then show ?thesis by simp
next
  case False
  then have "Suc j \<le> m" using assms(2) by simp
  then have "drop (Suc j) xs ! (m - Suc j) = xs ! m" using assms(1) by simp
  moreover have "m - Suc j < length (drop (Suc j) xs)" using \<open>Suc j \<le> m\<close> assms(1) by simp
  ultimately have "xs ! m \<in> set (drop (Suc j) xs)" by (metis nth_mem)
  then show ?thesis by simp
qed

lemma set_remove_subset: "set (take j xs @ drop (Suc j) xs) \<subseteq> set xs"
  using set_take_subset [of j xs] set_drop_subset [of "Suc j" xs] by auto

lemma collapse_found:
  assumes "best_found (length region) (merge_best region)"
  shows "\<exists>i j. i < j \<and> j < length region \<and>
           collapse region =
             take j (region[i := r_add (region ! i) (region ! j)]) @
             drop (Suc j) (region[i := r_add (region ! i) (region ! j)])"
proof -
  obtain bi bj ds where mb: "merge_best region = (bi, bj, ds)" by (cases "merge_best region") auto
  with assms have b: "0 \<le> bi" "bi < bj" "bj < int (length region)"
    by (auto simp: best_found_def)
  have "collapse region =
          take (nat bj) (region[nat bi := r_add (region ! nat bi) (region ! nat bj)]) @
          drop (Suc (nat bj)) (region[nat bi := r_add (region ! nat bi) (region ! nat bj)])"
    using mb b by (simp add: collapse_def Let_def)
  moreover have "nat bi < nat bj" "nat bj < length region" using b by auto
  ultimately show ?thesis by blast
qed

lemma collapse_cases:
  "collapse region = region \<or>
   (\<exists>i j. i < j \<and> j < length region \<and>
           collapse region =
             take j (region[i := r_add (region ! i) (region ! j)]) @
             drop (Suc j) (region[i := r_add (region ! i) (region ! j)]))"
proof -
  obtain bi bj ds where mb: "merge_best region = (bi, bj, ds)" by (cases "merge_best region") auto
  have v: "best_valid (length region) (bi, bj, ds)" using merge_best_valid [of region] mb by simp
  show ?thesis
  proof (cases "0 \<le> bj \<and> 0 \<le> bi")
    case True
    then have "best_found (length region) (merge_best region)"
      using v mb by (auto simp: best_valid_def best_found_def)
    then show ?thesis using collapse_found by blast
  next
    case False
    then show ?thesis using mb by (auto simp: collapse_def)
  qed
qed

lemma merged_covered:
  assumes "i < j" and "j < length region" and "covered region q"
  shows "covered (take j (region[i := r_add (region ! i) (region ! j)]) @
                  drop (Suc j) (region[i := r_add (region ! i) (region ! j)])) q"
proof -
  let ?u = "r_add (region ! i) (region ! j)"
  let ?region' = "region[i := ?u]"
  let ?res = "take j ?region' @ drop (Suc j) ?region'"
  have len: "length ?region' = length region" by simp
  have ui: "?region' ! i = ?u" using assms(1,2) by simp
  have u_in: "?u \<in> set ?res"
    using nth_in_remove [of i ?region' j] assms(1,2) ui by simp
  obtain reg where reg: "reg \<in> set region" "r_inside q reg"
    using assms(3) by (auto simp: covered_def)
  then obtain m where m: "m < length region" "region ! m = reg" by (auto simp: in_set_conv_nth)
  show ?thesis
  proof (cases "m = i \<or> m = j")
    case True
    then have "r_inside reg ?u" using m(2) r_inside_add1 r_inside_add2 by auto
    with reg(2) have "r_inside q ?u" by (rule r_inside_trans)
    then show ?thesis using u_in by (auto simp: covered_def)
  next
    case False
    then have "?region' ! m = reg" using m by simp
    moreover have "?region' ! m \<in> set ?res"
      using nth_in_remove [of m ?region' j] m(1) False by simp
    ultimately show ?thesis using reg(2) by (auto simp: covered_def)
  qed
qed

lemma collapse_covered:
  assumes "covered region q"
  shows "covered (collapse region) q"
proof -
  from collapse_cases [of region] show ?thesis
  proof
    assume "collapse region = region"
    then show ?thesis using assms by simp
  next
    assume "\<exists>i j. i < j \<and> j < length region \<and>
           collapse region =
             take j (region[i := r_add (region ! i) (region ! j)]) @
             drop (Suc j) (region[i := r_add (region ! i) (region ! j)])"
    then obtain i j where "i < j" "j < length region"
      "collapse region =
             take j (region[i := r_add (region ! i) (region ! j)]) @
             drop (Suc j) (region[i := r_add (region ! i) (region ! j)])"
      by blast
    then show ?thesis using merged_covered [of i j region q] assms by (simp only:)
  qed
qed

lemma collapse_boxed:
  assumes "boxed B region"
  shows "boxed B (collapse region)"
proof -
  have rm: "boxed B (take j (region[i := r_add (region ! i) (region ! j)]) @
                     drop (Suc j) (region[i := r_add (region ! i) (region ! j)]))"
    if "j < length region" for i j
  proof -
    have "r_inside (region ! j) B" using assms that by (auto simp: boxed_def)
    with assms have "boxed B (region[i := r_add (region ! i) (region ! j)])" by (rule boxed_update)
    then show ?thesis
      using set_remove_subset [of j "region[i := r_add (region ! i) (region ! j)]"]
      unfolding boxed_def by blast
  qed
  from collapse_cases [of region] show ?thesis
  proof
    assume "collapse region = region"
    then show ?thesis using assms by simp
  next
    assume "\<exists>i j. i < j \<and> j < length region \<and>
           collapse region =
             take j (region[i := r_add (region ! i) (region ! j)]) @
             drop (Suc j) (region[i := r_add (region ! i) (region ! j)])"
    then obtain i j where "j < length region"
      "collapse region =
             take j (region[i := r_add (region ! i) (region ! j)]) @
             drop (Suc j) (region[i := r_add (region ! i) (region ! j)])"
      by blast
    then show ?thesis using rm [of j i] by (simp only:)
  qed
qed

lemma collapse_length:
  assumes "best_found (length region) (merge_best region)"
  shows "Suc (length (collapse region)) = length region"
proof -
  obtain i j where "i < j" "j < length region"
    "collapse region =
       take j (region[i := r_add (region ! i) (region ! j)]) @
       drop (Suc j) (region[i := r_add (region ! i) (region ! j)])"
    using collapse_found [OF assms] by blast
  then show ?thesis by simp
qed

lemma r_surface_proper: "r_proper a \<Longrightarrow> 1 \<le> r_surface a"
proof -
  assume "r_proper a"
  then have "1 \<le> x1 a - x0 a" "1 \<le> y1 a - y0 a" by (auto simp: r_proper_def)
  then have "1 * 1 \<le> (x1 a - x0 a) * (y1 a - y0 a)" by (intro mult_mono) simp_all
  then show ?thesis by (simp add: r_surface_def)
qed

lemma r_surface_mono:
  assumes "r_proper a" and "r_inside a c"
  shows "r_surface a \<le> r_surface c"
proof -
  have "0 \<le> x1 a - x0 a" "0 \<le> y1 a - y0 a" using assms(1) by (auto simp: r_proper_def)
  moreover have "x1 a - x0 a \<le> x1 c - x0 c" "y1 a - y0 a \<le> y1 c - y0 c"
    using assms(2) by (auto simp: r_inside_def)
  ultimately have "(x1 a - x0 a) * (y1 a - y0 a) \<le> (x1 c - x0 c) * (y1 c - y0 c)"
    by (intro mult_mono) simp_all
  then show ?thesis by (simp add: r_surface_def)
qed

lemma ds_of_bound:
  assumes "boxed B region" and "r_surface B \<le> INT_MAX" and "i < length region" and "j < length region"
  shows "ds_of region i j < INT_MAX"
proof -
  have i: "r_proper (region ! i)" "r_inside (region ! i) B"
    and j: "r_proper (region ! j)" "r_inside (region ! j) B"
    using assms(1,3,4) by (auto simp: boxed_def)
  have "r_proper (r_add (region ! i) (region ! j))" using i(1) by (rule r_add_proper)
  moreover have "r_inside (r_add (region ! i) (region ! j)) B" using i(2) j(2) by (rule r_add_inside)
  ultimately have "r_surface (r_add (region ! i) (region ! j)) \<le> r_surface B"
    by (rule r_surface_mono)
  moreover have "1 \<le> r_surface (region ! i)" "1 \<le> r_surface (region ! j)"
    using i(1) j(1) by (auto intro: r_surface_proper)
  ultimately show ?thesis using assms(2) by (simp add: ds_of_def)
qed

lemma covered_append: "covered region q \<Longrightarrow> covered (region @ [r]) q"
  by (auto simp: covered_def)

lemma covered_last: "covered (region @ [r]) r"
  by (auto simp: covered_def r_inside_refl)

lemma build_iter_cover:
  assumes it: "build_iter k i_maxw i_maxh pp region u = Some (pp', region', u')"
    and cv: "cover F pp region" and cnt: "u + count_img pp = n"
  shows "cover F pp' region' \<and> u' + count_img pp' = n"
proof -
  obtain p pp1 where tf: "take_first pp = Some (p, pp1)"
    using it by (auto simp: build_iter_def split: option.splits)
  note tfp = take_first_props [OF tf]
  obtain pp2 region2 u2 where
    ab: "absorb pp1 (region @ [r_img p]) i_maxw i_maxh (u + 1) = (pp2, region2, u2)"
    by (cases "absorb pp1 (region @ [r_img p]) i_maxw i_maxh (u + 1)") auto
  have res: "pp' = pp2" "u' = u2"
    "region' = (if int (length region2) > k then collapse region2 else region2)"
    using it tf ab by (auto simp: build_iter_def split: if_splits)
  note g = absorb_grows [OF ab, unfolded grows_def]
  have c2: "covered region' q" if "covered region2 q" for q
    using that unfolding res(3) by (auto intro: collapse_covered)
  have "Some f \<in> set pp' \<or> covered region' (r_img f)" if f: "f \<in> F" for f
  proof -
    from cv f have "Some f \<in> set pp \<or> covered region (r_img f)" by (auto simp: cover_def)
    then show ?thesis
    proof
      assume "Some f \<in> set pp"
      then have "f = p \<or> Some f \<in> set pp1" using tfp by blast
      then show ?thesis
      proof
        assume "f = p"
        then have "covered (region @ [r_img p]) (r_img f)" by (simp add: covered_last)
        then have "covered region2 (r_img f)" using g by blast
        then show ?thesis using c2 by blast
      next
        assume "Some f \<in> set pp1"
        then have "Some f \<in> set pp2 \<or> covered region2 (r_img f)" using g by blast
        then show ?thesis using c2 res(1) by blast
      qed
    next
      assume "covered region (r_img f)"
      then have "covered (region @ [r_img p]) (r_img f)" by (rule covered_append)
      then have "covered region2 (r_img f)" using g by blast
      then show ?thesis using c2 by blast
    qed
  qed
  then have "cover F pp' region'" by (simp add: cover_def)
  moreover have "u' + count_img pp' = n" using g tfp cnt res(1,2) by simp
  ultimately show ?thesis by simp
qed

lemma count_img_zero: "count_img pp = 0 \<Longrightarrow> Some p \<notin> set pp"
  by (induction pp rule: take_first.induct) auto

lemma build_loop_cover:
  "build_loop k i_maxw i_maxh n pp region u = Some rs \<Longrightarrow>
     cover F pp region \<Longrightarrow> u + count_img pp = n \<Longrightarrow> (\<forall>f \<in> F. covered rs (r_img f))"
proof (induction k i_maxw i_maxh n pp region u rule: build_loop.induct)
  case (1 i_max_region i_maxw i_maxh i_count pp_img region i_used)
  show ?case
  proof (cases "i_used < i_count")
    case True
    then obtain pp' region' u' where
      it: "build_iter i_max_region i_maxw i_maxh pp_img region i_used = Some (pp', region', u')"
      and lp: "build_loop i_max_region i_maxw i_maxh i_count pp' region' u' = Some rs"
      using "1.prems"(1) by (subst (asm) build_loop.simps) (auto split: option.splits)
    from build_iter_cover [OF it "1.prems"(2,3)]
    have "cover F pp' region'" "u' + count_img pp' = i_count" by simp_all
    from "1.IH" [OF True it refl refl lp this] show ?thesis .
  next
    case False
    then have rs: "rs = region" using "1.prems"(1) by (subst (asm) build_loop.simps) simp
    have "count_img pp_img = 0" using False "1.prems"(3) by simp
    then have "Some f \<notin> set pp_img" for f by (rule count_img_zero)
    then show ?thesis using "1.prems"(2) unfolding rs cover_def by blast
  qed
qed

lemma build_iter_total:
  assumes k: "1 \<le> k" and B: "r_surface B \<le> INT_MAX"
    and bx: "boxed B region" and ib: "imgs_boxed B pp"
    and cnt: "u + count_img pp = n" and lt: "u < n" and len: "int (length region) \<le> k"
  shows "\<exists>pp' region' u'. build_iter k i_maxw i_maxh pp region u = Some (pp', region', u') \<and>
           boxed B region' \<and> imgs_boxed B pp' \<and> int (length region') \<le> k"
proof -
  have "0 < count_img pp" using cnt lt by simp
  then obtain p pp1 where tf: "take_first pp = Some (p, pp1)" using take_first_Some by blast
  note tfp = take_first_props [OF tf]
  obtain pp2 region2 u2 where
    ab: "absorb pp1 (region @ [r_img p]) i_maxw i_maxh (u + 1) = (pp2, region2, u2)"
    by (cases "absorb pp1 (region @ [r_img p]) i_maxw i_maxh (u + 1)") auto
  note g = absorb_grows [OF ab, unfolded grows_def]
  let ?region' = "if int (length region2) > k then collapse region2 else region2"
  have it: "build_iter k i_maxw i_maxh pp region u = Some (pp2, ?region', u2)"
    using tf ab len by (simp add: build_iter_def)
  have p: "0 < w p" "0 < h p" "r_inside (r_img p) B" using ib tfp by (auto simp: imgs_boxed_def)
  have ib1: "imgs_boxed B pp1" using ib tfp unfolding imgs_boxed_def by blast
  have "boxed B (region @ [r_img p])"
    using bx p by (auto simp: boxed_def intro: r_img_proper)
  then have bx2: "boxed B region2" using ab ib1 absorb_boxed by blast
  have ib2: "imgs_boxed B pp2" using ib1 g unfolding imgs_boxed_def by blast
  have len2: "length region2 = Suc (length region)" using g by simp
  have "boxed B ?region' \<and> int (length ?region') \<le> k"
  proof (cases "int (length region2) > k")
    case True
    then have two: "2 \<le> length region2" using k by linarith
    then have "0 < length region2" "1 < length region2" by linarith+
    with bx2 B have "ds_of region2 0 1 < INT_MAX" by (rule ds_of_bound)
    with two have "best_found (length region2) (merge_best region2)" by (rule merge_best_found)
    then have "Suc (length (collapse region2)) = length region2" by (rule collapse_length)
    then have "int (length (collapse region2)) \<le> k" using len2 len by linarith
    then show ?thesis using True bx2 by (simp add: collapse_boxed)
  next
    case False
    then show ?thesis using bx2 by simp
  qed
  then show ?thesis using it ib2 by blast
qed

lemma build_loop_total:
  "1 \<le> k \<Longrightarrow> r_surface B \<le> INT_MAX \<Longrightarrow> boxed B region \<Longrightarrow> imgs_boxed B pp \<Longrightarrow>
     u + count_img pp = n \<Longrightarrow> int (length region) \<le> k \<Longrightarrow>
     \<exists>rs. build_loop k i_maxw i_maxh n pp region u = Some rs \<and> int (length rs) \<le> k \<and> boxed B rs"
proof (induction k i_maxw i_maxh n pp region u rule: build_loop.induct)
  case (1 i_max_region i_maxw i_maxh i_count pp_img region i_used)
  show ?case
  proof (cases "i_used < i_count")
    case True
    obtain pp' region' u' where
      it: "build_iter i_max_region i_maxw i_maxh pp_img region i_used = Some (pp', region', u')"
      and inv: "boxed B region'" "imgs_boxed B pp'" "int (length region') \<le> i_max_region"
      using build_iter_total [OF "1.prems"(1,2,3,4,5) True "1.prems"(6)] by blast
    have cnt: "u' + count_img pp' = i_count"
      using build_iter_cover [OF it _ "1.prems"(5), of "{}"] by (simp add: cover_def)
    have "\<exists>rs. build_loop i_max_region i_maxw i_maxh i_count pp' region' u' = Some rs \<and>
            int (length rs) \<le> i_max_region \<and> boxed B rs"
      using "1.IH" [OF True it refl refl "1.prems"(1,2) inv(1,2) cnt inv(3)] .
    moreover have "build_loop i_max_region i_maxw i_maxh i_count pp_img region i_used =
                     build_loop i_max_region i_maxw i_maxh i_count pp' region' u'"
      using True it by (subst build_loop.simps) simp
    ultimately show ?thesis by simp
  next
    case False
    then have "build_loop i_max_region i_maxw i_maxh i_count pp_img region i_used = Some region"
      by (subst build_loop.simps) simp
    then show ?thesis using "1.prems" by simp
  qed
qed

lemma count_img_map_Some: "count_img (map Some imgs) = length imgs"
  by (induction imgs) simp_all

lemma r_inside_points: "r_inside a b \<Longrightarrow> r_points a \<subseteq> r_points b"
  by (auto simp: r_inside_def r_points_def)

lemma BuildRegions_covers:
  assumes "BuildRegions True i_max_region p_img_list i_width i_height = Some region"
    and "f \<in> set p_img_list" and "0 < w f" and "0 < h f"
  shows "covered region (r_img f)"
proof -
  let ?imgs = "filter (\<lambda>p_tmp. w p_tmp > 0 \<and> h p_tmp > 0) p_img_list"
  have f: "f \<in> set ?imgs" using assms(2-4) by simp
  then have ne: "\<not> length ?imgs \<le> 0" by (auto simp: filter_empty_conv)
  obtain i_maxw i_maxh where tol: "tolerances i_width i_height = (i_maxw, i_maxh)"
    by (cases "tolerances i_width i_height") auto
  have "build_loop i_max_region i_maxw i_maxh (length ?imgs) (map Some ?imgs) [] 0 = Some region"
    using assms(1) ne tol by (simp add: BuildRegions_def Let_def split: if_splits)
  moreover have "cover (set ?imgs) (map Some ?imgs) []" by (auto simp: cover_def)
  moreover have "0 + count_img (map Some ?imgs) = length ?imgs" by (simp add: count_img_map_Some)
  ultimately have "\<forall>f \<in> set ?imgs. covered region (r_img f)" by (rule build_loop_cover)
  then show ?thesis using f by blast
qed

lemma BuildRegions_total:
  assumes "1 \<le> i_max_region" and "r_surface B \<le> INT_MAX"
    and "\<forall>p \<in> set p_img_list. 0 < w p \<and> 0 < h p \<longrightarrow> r_inside (r_img p) B"
  shows "\<exists>region. BuildRegions calloc_ok i_max_region p_img_list i_width i_height = Some region \<and>
           int (length region) \<le> i_max_region"
proof -
  let ?imgs = "filter (\<lambda>p_tmp. w p_tmp > 0 \<and> h p_tmp > 0) p_img_list"
  obtain i_maxw i_maxh where tol: "tolerances i_width i_height = (i_maxw, i_maxh)"
    by (cases "tolerances i_width i_height") auto
  show ?thesis
  proof (cases "length ?imgs \<le> 0 \<or> \<not> calloc_ok")
    case True
    then have "BuildRegions calloc_ok i_max_region p_img_list i_width i_height = Some []"
      by (auto simp: BuildRegions_def Let_def)
    then show ?thesis using assms(1) by simp
  next
    case False
    have "boxed B []" by (simp add: boxed_def)
    moreover have "imgs_boxed B (map Some ?imgs)" using assms(3) by (auto simp: imgs_boxed_def)
    moreover have "0 + count_img (map Some ?imgs) = length ?imgs" by (simp add: count_img_map_Some)
    moreover have "int (length ([] :: rectangle_t list)) \<le> i_max_region" using assms(1) by simp
    ultimately obtain rs where
      "build_loop i_max_region i_maxw i_maxh (length ?imgs) (map Some ?imgs) [] 0 = Some rs"
      "int (length rs) \<le> i_max_region"
      using build_loop_total [OF assms(1,2), of "[]" "map Some ?imgs" 0 "length ?imgs" i_maxw i_maxh]
      by blast
    moreover have "BuildRegions calloc_ok i_max_region p_img_list i_width i_height =
                     build_loop i_max_region i_maxw i_maxh (length ?imgs) (map Some ?imgs) [] 0"
      using False tol assms(1) by (simp add: BuildRegions_def Let_def)
    ultimately show ?thesis by simp
  qed
qed

text \<open>
  What the loop of lines 603 to 613 returns: since the surface it compares is that of the
  image's own rectangle, the first region that passes the test stays the best one.
\<close>

lemma find_best_keep:
  "i_best_s \<le> r_surface r \<Longrightarrow> find_best region r i_maxw i_maxh k i_best i_best_s = i_best"
  by (induction region arbitrary: k) (simp_all add: Let_def)

lemma find_best_first_overlap:
  "r_surface r < INT_MAX \<Longrightarrow>
     find_best region r i_maxw i_maxh k (- 1) INT_MAX = first_overlap region r i_maxw i_maxh k"
  by (induction region arbitrary: k) (simp_all add: Let_def find_best_keep)

text \<open>
  \<open>spec_ceil_div\<close> is the ceiling of the quotient, and the two increments of lines 570 and
  571 are the specification's \<open>dx\<close> and \<open>dy\<close>; \<open>r_overlap\<close> receives them as \<open>(dy, dx)\<close>.
\<close>

lemma spec_ceil_div_is_ceiling:
  assumes "0 < b"
  shows "a \<le> b * spec_ceil_div a b \<and> b * (spec_ceil_div a b - 1) < a"
proof -
  let ?n = "(a + b - 1) div b"
  have "b * ?n + (a + b - 1) mod b = a + b - 1" by (rule mult_div_mod_eq)
  moreover have "0 \<le> (a + b - 1) mod b" "(a + b - 1) mod b < b"
    using assms by simp_all
  ultimately have "a \<le> b * ?n" "b * ?n - b < a" by linarith+
  then show ?thesis by (simp add: spec_ceil_div_def right_diff_distrib)
qed

lemma sdiv_nonneg: "0 \<le> a \<Longrightarrow> 0 < b \<Longrightarrow> (a :: int) sdiv b = a div b"
  by (cases "a = 0") (simp_all add: signed_divide_int_def)

lemma sdiv_neg_le: "a < 0 \<Longrightarrow> 0 < b \<Longrightarrow> (a :: int) sdiv b \<le> 0"
  by (simp add: signed_divide_int_def pos_imp_zdiv_nonneg_iff)

lemma i_w_inc_spec: "max ((i_width + 49) sdiv 50) 32 = spec_dx i_width"
proof (cases "0 \<le> i_width + 49")
  case True
  then have "(i_width + 49) sdiv 50 = (i_width + 49) div 50" by (intro sdiv_nonneg) simp_all
  then show ?thesis by (simp add: spec_dx_def spec_ceil_div_def)
next
  case False
  then have "(i_width + 49) sdiv 50 \<le> 0" by (intro sdiv_neg_le) simp_all
  moreover have "(i_width + 49) div 50 \<le> 0" using False by (simp add: div_nonpos_pos_le0)
  ultimately show ?thesis by (simp add: spec_dx_def spec_ceil_div_def)
qed

lemma i_h_inc_spec: "max ((i_height + 99) sdiv 100) 32 = spec_dy i_height"
proof (cases "0 \<le> i_height + 99")
  case True
  then have "(i_height + 99) sdiv 100 = (i_height + 99) div 100" by (intro sdiv_nonneg) simp_all
  then show ?thesis by (simp add: spec_dy_def spec_ceil_div_def)
next
  case False
  then have "(i_height + 99) sdiv 100 \<le> 0" by (intro sdiv_neg_le) simp_all
  moreover have "(i_height + 99) div 100 \<le> 0" using False by (simp add: div_nonpos_pos_le0)
  ultimately show ?thesis by (simp add: spec_dy_def spec_ceil_div_def)
qed

lemma tolerances_spec: "tolerances i_width i_height = (spec_dy i_height, spec_dx i_width)"
  by (simp only: tolerances_def Let_def i_w_inc_spec i_h_inc_spec)

text \<open>
  The pair that the loops of lines 630 to 645 leave in \<open>(i_best_i, i_best_j)\<close>: the first
  pair, in the order of the loops, whose \<open>ds\<close> is least.
\<close>

lemma merge_step_ds:
  "merge_step region i j (bi, bj, bds) =
     (if ds_of region i j < bds then (int i, int j, ds_of region i j) else (bi, bj, bds))"
  by (simp add: merge_step_def ds_of_def Let_def)

lemma pair_upto_Suc:
  "pair_upto n i0 (Suc j0) i j \<longleftrightarrow>
     pair_upto n i0 j0 i j \<or> (i = i0 \<and> j = j0 \<and> i0 < j0 \<and> j0 < n)"
  by (auto simp: pair_upto_def)

lemma pair_upto_lex: "pair_upto n i0 j0 i j \<Longrightarrow> lex_before i j i0 j0"
  by (auto simp: pair_upto_def lex_before_def)

lemma lex_before_irrefl: "\<not> lex_before i j i j"
  by (simp add: lex_before_def)

lemma lex_before_asym: "lex_before i j i' j' \<Longrightarrow> \<not> lex_before i' j' i j"
  by (auto simp: lex_before_def)

lemma best_upto_step:
  assumes ij: "i0 < j0" "j0 < length region" and b: "best_upto region i0 j0 best"
  shows "best_upto region i0 (Suc j0) (merge_step region i0 j0 best)"
proof -
  let ?n = "length region"
  let ?d = "ds_of region i0 j0"
  have new: "pair_upto ?n i0 (Suc j0) i0 j0" using ij by (simp add: pair_upto_def)
  from b consider
    (init) "best = (- 1, - 1, INT_MAX)"
      "\<forall>i' j'. pair_upto ?n i0 j0 i' j' \<longrightarrow> INT_MAX \<le> ds_of region i' j'"
    | (found) i j where "pair_upto ?n i0 j0 i j"
      "best = (int i, int j, ds_of region i j)" "ds_of region i j < INT_MAX"
      "\<forall>i' j'. pair_upto ?n i0 j0 i' j' \<longrightarrow>
           ds_of region i j \<le> ds_of region i' j' \<and>
           (lex_before i' j' i j \<longrightarrow> ds_of region i j < ds_of region i' j')"
    unfolding best_upto_def by blast
  then show ?thesis
  proof cases
    case init
    show ?thesis
    proof (cases "?d < INT_MAX")
      case True
      then have ms: "merge_step region i0 j0 best = (int i0, int j0, ?d)"
        using init(1) by (simp add: merge_step_ds)
      have "?d \<le> ds_of region i' j' \<and> (lex_before i' j' i0 j0 \<longrightarrow> ?d < ds_of region i' j')"
        if "pair_upto ?n i0 (Suc j0) i' j'" for i' j'
      proof (cases "pair_upto ?n i0 j0 i' j'")
        case True
        then have "INT_MAX \<le> ds_of region i' j'" using init(2) by blast
        then show ?thesis using \<open>?d < INT_MAX\<close> by simp
      next
        case False
        then have "i' = i0 \<and> j' = j0" using that by (simp add: pair_upto_Suc)
        then show ?thesis by (simp add: lex_before_irrefl)
      qed
      then show ?thesis unfolding best_upto_def using ms new True by blast
    next
      case False
      then have ms: "merge_step region i0 j0 best = (- 1, - 1, INT_MAX)"
        using init(1) by (simp add: merge_step_ds)
      have "INT_MAX \<le> ds_of region i' j'" if "pair_upto ?n i0 (Suc j0) i' j'" for i' j'
      proof (cases "pair_upto ?n i0 j0 i' j'")
        case True
        then show ?thesis using init(2) by blast
      next
        case F: False
        then have "i' = i0 \<and> j' = j0" using that by (simp add: pair_upto_Suc)
        then show ?thesis using False by simp
      qed
      then show ?thesis unfolding best_upto_def using ms by blast
    qed
  next
    case (found i j)
    have old: "pair_upto ?n i0 (Suc j0) i j" using found(1) by (simp add: pair_upto_Suc)
    show ?thesis
    proof (cases "?d < ds_of region i j")
      case True
      then have ms: "merge_step region i0 j0 best = (int i0, int j0, ?d)"
        using found(2) by (simp add: merge_step_ds)
      have lt: "?d < INT_MAX" using True found(3) by simp
      have "?d \<le> ds_of region i' j' \<and> (lex_before i' j' i0 j0 \<longrightarrow> ?d < ds_of region i' j')"
        if "pair_upto ?n i0 (Suc j0) i' j'" for i' j'
      proof (cases "pair_upto ?n i0 j0 i' j'")
        case T: True
        then have "ds_of region i j \<le> ds_of region i' j'" using found(4) by blast
        then show ?thesis using True by simp
      next
        case False
        then have "i' = i0 \<and> j' = j0" using that by (simp add: pair_upto_Suc)
        then show ?thesis by (simp add: lex_before_irrefl)
      qed
      then show ?thesis unfolding best_upto_def using ms new lt by blast
    next
      case False
      then have ms: "merge_step region i0 j0 best = (int i, int j, ds_of region i j)"
        using found(2) by (simp add: merge_step_ds)
      have "ds_of region i j \<le> ds_of region i' j' \<and>
            (lex_before i' j' i j \<longrightarrow> ds_of region i j < ds_of region i' j')"
        if "pair_upto ?n i0 (Suc j0) i' j'" for i' j'
      proof (cases "pair_upto ?n i0 j0 i' j'")
        case True
        then show ?thesis using found(4) by blast
      next
        case F: False
        then have eq: "i' = i0 \<and> j' = j0" using that by (simp add: pair_upto_Suc)
        have "\<not> lex_before i0 j0 i j" using pair_upto_lex [OF found(1)] by (rule lex_before_asym)
        then show ?thesis using eq False by simp
      qed
      then show ?thesis unfolding best_upto_def using ms old found(3) by blast
    qed
  qed
qed

lemma best_upto_inner:
  assumes "i0 < length region" and "best_upto region i0 (Suc i0) best"
  shows "best_upto region i0 (length region)
           (fold (\<lambda>j. merge_step region i0 j) [i0 + 1 ..< length region] best)"
proof -
  have "m \<le> length region \<Longrightarrow>
          best_upto region i0 m (fold (\<lambda>j. merge_step region i0 j) [Suc i0 ..< m] best)"
    if "Suc i0 \<le> m" for m
    using that
  proof (induction m rule: dec_induct)
    case base
    then show ?case using assms(2) by simp
  next
    case (step m)
    have "best_upto region i0 m (fold (\<lambda>j. merge_step region i0 j) [Suc i0 ..< m] best)"
      using step by simp
    then have "best_upto region i0 (Suc m)
                 (merge_step region i0 m (fold (\<lambda>j. merge_step region i0 j) [Suc i0 ..< m] best))"
      using step.hyps step.prems by (intro best_upto_step) simp_all
    then show ?case using step.hyps by (simp add: upt_Suc_append)
  qed
  then show ?thesis using assms(1) by simp
qed

lemma best_upto_next_row:
  "best_upto region i0 (length region) best \<longleftrightarrow> best_upto region (Suc i0) (Suc (Suc i0)) best"
proof -
  have "pair_upto (length region) i0 (length region) i j \<longleftrightarrow>
        pair_upto (length region) (Suc i0) (Suc (Suc i0)) i j" for i j
    by (auto simp: pair_upto_def)
  then show ?thesis by (simp add: best_upto_def)
qed

lemma merge_best_upto:
  "best_upto region (length region) (Suc (length region)) (merge_best region)"
proof -
  let ?n = "length region"
  let ?inner = "\<lambda>i best. fold (\<lambda>j. merge_step region i j) [i + 1 ..< ?n] best"
  have "best_upto region m (Suc m) (fold ?inner [0 ..< m] (- 1, - 1, INT_MAX))" if "m \<le> ?n" for m
    using that
  proof (induction m)
    case 0
    then show ?case by (simp add: best_upto_def pair_upto_def)
  next
    case (Suc m)
    then have "best_upto region m (Suc m) (fold ?inner [0 ..< m] (- 1, - 1, INT_MAX))" by simp
    then have "best_upto region m ?n (?inner m (fold ?inner [0 ..< m] (- 1, - 1, INT_MAX)))"
      using Suc.prems by (intro best_upto_inner) simp_all
    then show ?case by (simp add: best_upto_next_row)
  qed
  then show ?thesis unfolding merge_best_def by simp
qed

lemma merge_best_minimal:
  assumes "i < j" and "j < length region" and "ds_of region i j < INT_MAX"
  shows "\<exists>bi bj. bi < bj \<and> bj < length region \<and>
           merge_best region = (int bi, int bj, ds_of region bi bj) \<and>
           (\<forall>i' j'. i' < j' \<and> j' < length region \<longrightarrow>
              ds_of region bi bj \<le> ds_of region i' j' \<and>
              (lex_before i' j' bi bj \<longrightarrow> ds_of region bi bj < ds_of region i' j'))"
proof -
  have all: "pair_upto (length region) (length region) (Suc (length region)) i' j' \<longleftrightarrow>
             i' < j' \<and> j' < length region" for i' j'
    by (auto simp: pair_upto_def)
  have "\<not> (\<forall>i' j'. i' < j' \<and> j' < length region \<longrightarrow> INT_MAX \<le> ds_of region i' j')"
    using assms by force
  then show ?thesis
    using merge_best_upto [of region] unfolding best_upto_def all by blast
qed

lemma collapse_minimal:
  assumes "2 \<le> length region" and "boxed B region" and "r_surface B \<le> INT_MAX"
  shows "\<exists>i j. i < j \<and> j < length region \<and>
           collapse region =
             take j (region[i := r_add (region ! i) (region ! j)]) @
             drop (Suc j) (region[i := r_add (region ! i) (region ! j)]) \<and>
           Suc (length (collapse region)) = length region \<and>
           (\<forall>i' j'. i' < j' \<and> j' < length region \<longrightarrow>
              ds_of region i j \<le> ds_of region i' j' \<and>
              (lex_before i' j' i j \<longrightarrow> ds_of region i j < ds_of region i' j'))"
proof -
  have "0 < length region" "1 < length region" using assms(1) by linarith+
  with assms(2,3) have "ds_of region 0 1 < INT_MAX" by (rule ds_of_bound)
  then obtain bi bj where b: "bi < bj" "bj < length region"
    and mb: "merge_best region = (int bi, int bj, ds_of region bi bj)"
    and mn: "\<forall>i' j'. i' < j' \<and> j' < length region \<longrightarrow>
              ds_of region bi bj \<le> ds_of region i' j' \<and>
              (lex_before i' j' bi bj \<longrightarrow> ds_of region bi bj < ds_of region i' j')"
    using merge_best_minimal [of 0 1 region] assms(1) by auto
  have c: "collapse region =
          take bj (region[bi := r_add (region ! bi) (region ! bj)]) @
          drop (Suc bj) (region[bi := r_add (region ! bi) (region ! bj)])"
    using mb by (simp add: collapse_def Let_def)
  then have "Suc (length (collapse region)) = length region" using b by simp
  with b c mn show ?thesis by blast
qed

lemma tolerances_1920_1080:
  "tolerances 1920 1080 = (32, 39) \<and> spec_dx 1920 = 39 \<and> spec_dy 1080 = 32"
  by (simp add: tolerances_spec) (simp add: spec_dx_def spec_dy_def spec_ceil_div_def)

text \<open>Scenarios B and C of the specification.\<close>

lemma scenario_B:
  "BuildRegions True 4 [img 0 0 10 10, img 200 200 10 10] 1000 1000
   = Some [\<lparr>x0 = 0, y0 = 0, x1 = 10, y1 = 10\<rparr>, \<lparr>x0 = 200, y0 = 200, x1 = 210, y1 = 210\<rparr>]"
  by code_simp

lemma scenario_C:
  "BuildRegions True 1
     [img 0 0 10 10, img 200 200 10 10, img 500 0 10 10, img 0 500 3 3, img 900 900 1 1] 1000 1000
   = Some [\<lparr>x0 = 0, y0 = 0, x1 = 901, y1 = 901\<rparr>]"
  by code_simp

text \<open>
  Claim C3. For every image list and every \<open>i_max_region\<close> of at least 1, \<open>BuildRegions\<close>
  returns, and the list it returns has at most \<open>i_max_region\<close> rectangles. The images of
  positive size lie in a box \<open>B\<close> whose surface fits a C \<open>int\<close>, so that no surface
  computed on the way overflows. The count exceeds \<open>i_max_region\<close> only inside an
  iteration of the outer loop, by one; then, for any such list \<open>rs\<close> of regions inside
  \<open>B\<close>, the merge step removes exactly one region: it unions one pair \<open>i < j\<close> into slot
  \<open>i\<close> and drops slot \<open>j\<close>, and that pair has the least increase of surface \<open>ds\<close>, every
  pair before it in the lexicographic order having a strictly larger one.
\<close>

theorem BuildRegions_at_most_max_regions:
  assumes "1 \<le> i_max_region" and "r_surface B \<le> INT_MAX"
    and "\<forall>p \<in> set p_img_list. 0 < w p \<and> 0 < h p \<longrightarrow> r_inside (r_img p) B"
  shows "(\<exists>region. BuildRegions calloc_ok i_max_region p_img_list i_width i_height = Some region \<and>
            int (length region) \<le> i_max_region) \<and>
         (boxed B rs \<and> i_max_region < int (length rs) \<longrightarrow>
            (\<exists>i j. i < j \<and> j < length rs \<and>
               collapse rs =
                 take j (rs[i := r_add (rs ! i) (rs ! j)]) @
                 drop (Suc j) (rs[i := r_add (rs ! i) (rs ! j)]) \<and>
               Suc (length (collapse rs)) = length rs \<and>
               (\<forall>i' j'. i' < j' \<and> j' < length rs \<longrightarrow>
                  ds_of rs i j \<le> ds_of rs i' j' \<and>
                  (lex_before i' j' i j \<longrightarrow> ds_of rs i j < ds_of rs i' j'))))"
proof (rule conjI)
  show "\<exists>region. BuildRegions calloc_ok i_max_region p_img_list i_width i_height = Some region \<and>
          int (length region) \<le> i_max_region"
    using assms by (rule BuildRegions_total)
next
  show "boxed B rs \<and> i_max_region < int (length rs) \<longrightarrow>
            (\<exists>i j. i < j \<and> j < length rs \<and>
               collapse rs =
                 take j (rs[i := r_add (rs ! i) (rs ! j)]) @
                 drop (Suc j) (rs[i := r_add (rs ! i) (rs ! j)]) \<and>
               Suc (length (collapse rs)) = length rs \<and>
               (\<forall>i' j'. i' < j' \<and> j' < length rs \<longrightarrow>
                  ds_of rs i j \<le> ds_of rs i' j' \<and>
                  (lex_before i' j' i j \<longrightarrow> ds_of rs i j < ds_of rs i' j')))"
  proof
    assume a: "boxed B rs \<and> i_max_region < int (length rs)"
    then have "2 \<le> length rs" using assms(1) by linarith
    then show "\<exists>i j. i < j \<and> j < length rs \<and>
               collapse rs =
                 take j (rs[i := r_add (rs ! i) (rs ! j)]) @
                 drop (Suc j) (rs[i := r_add (rs ! i) (rs ! j)]) \<and>
               Suc (length (collapse rs)) = length rs \<and>
               (\<forall>i' j'. i' < j' \<and> j' < length rs \<longrightarrow>
                  ds_of rs i j \<le> ds_of rs i' j' \<and>
                  (lex_before i' j' i j \<longrightarrow> ds_of rs i j < ds_of rs i' j'))"
      using a assms(2) by (intro collapse_minimal) simp_all
  qed
qed

theorem BuildRegions_at_most_max_regions_witness:
  "(\<exists>region.
      BuildRegions True 1
        [img 0 0 10 10, img 200 200 10 10, img 500 0 10 10, img 0 500 3 3, img 900 900 1 1]
        1000 1000 = Some region \<and>
      int (length region) \<le> 1) \<and>
   collapse [\<lparr>x0 = 0, y0 = 0, x1 = 10, y1 = 10\<rparr>, \<lparr>x0 = 200, y0 = 200, x1 = 210, y1 = 210\<rparr>]
     = [\<lparr>x0 = 0, y0 = 0, x1 = 210, y1 = 210\<rparr>]"
proof -
  let ?B = "\<lparr>x0 = 0, y0 = 0, x1 = 1000, y1 = 1000\<rparr>"
  let ?rs = "[\<lparr>x0 = 0, y0 = 0, x1 = 10, y1 = 10\<rparr>, \<lparr>x0 = 200, y0 = 200, x1 = 210, y1 = 210\<rparr>]"
  have h1: "(1 :: int) \<le> 1" by simp
  have h2: "r_surface ?B \<le> INT_MAX" by (simp add: r_surface_def INT_MAX_def)
  have h3: "\<forall>p \<in> set [img 0 0 10 10, img 200 200 10 10, img 500 0 10 10, img 0 500 3 3, img 900 900 1 1].
      0 < w p \<and> 0 < h p \<longrightarrow> r_inside (r_img p) ?B"
    by (simp add: img_def r_inside_def r_img_def r_create_def)
  have h4: "boxed ?B ?rs \<and> 1 < int (length ?rs)"
    by (simp add: boxed_def r_proper_def r_inside_def)
  note inst = BuildRegions_at_most_max_regions [OF h1 h2 h3, of True 1000 1000 ?rs]
  obtain i j where ij: "i < j" "j < length ?rs"
    and c: "collapse ?rs = take j (?rs[i := r_add (?rs ! i) (?rs ! j)]) @
                           drop (Suc j) (?rs[i := r_add (?rs ! i) (?rs ! j)])"
    using inst h4 by blast
  have "i = 0" "j = 1" using ij by simp_all
  then have "collapse ?rs = [\<lparr>x0 = 0, y0 = 0, x1 = 210, y1 = 210\<rparr>]"
    using c by (simp add: r_add_def)
  then show ?thesis using inst by blast
qed

text \<open>
  Claim C4. For every image list, whenever \<open>BuildRegions\<close> returns a list with the
  allocation succeeding, every image of positive width and height has its rectangle
  inside one of the returned rectangles, hence inside their union. And it does return
  when \<open>i_max_region\<close> is at least 1 and the images of positive size lie in a box whose
  surface fits a C \<open>int\<close>.
\<close>

theorem BuildRegions_covers_every_image:
  "(BuildRegions True i_max_region p_img_list i_width i_height = Some region \<longrightarrow>
      (\<forall>f \<in> set p_img_list. 0 < w f \<and> 0 < h f \<longrightarrow>
         (\<exists>reg \<in> set region. r_inside (r_img f) reg) \<and>
         r_points (r_img f) \<subseteq> (\<Union>reg \<in> set region. r_points reg))) \<and>
   (1 \<le> i_max_region \<and> r_surface B \<le> INT_MAX \<and>
    (\<forall>p \<in> set p_img_list. 0 < w p \<and> 0 < h p \<longrightarrow> r_inside (r_img p) B) \<longrightarrow>
      (\<exists>region'. BuildRegions True i_max_region p_img_list i_width i_height = Some region'))"
proof (intro conjI impI ballI)
  fix f
  assume br: "BuildRegions True i_max_region p_img_list i_width i_height = Some region"
    and f: "f \<in> set p_img_list" "0 < w f \<and> 0 < h f"
  have "covered region (r_img f)" using br f by (intro BuildRegions_covers) simp_all
  then obtain reg where reg: "reg \<in> set region" "r_inside (r_img f) reg"
    by (auto simp: covered_def)
  then show "\<exists>reg \<in> set region. r_inside (r_img f) reg" by blast
  have "r_points (r_img f) \<subseteq> r_points reg" using reg(2) by (rule r_inside_points)
  then show "r_points (r_img f) \<subseteq> (\<Union>reg \<in> set region. r_points reg)" using reg(1) by blast
next
  assume "1 \<le> i_max_region \<and> r_surface B \<le> INT_MAX \<and>
    (\<forall>p \<in> set p_img_list. 0 < w p \<and> 0 < h p \<longrightarrow> r_inside (r_img p) B)"
  then show "\<exists>region'. BuildRegions True i_max_region p_img_list i_width i_height = Some region'"
    using BuildRegions_total [of i_max_region B p_img_list True i_width i_height] by blast
qed

theorem BuildRegions_covers_every_image_witness:
  "\<exists>region.
     BuildRegions True 4 [img 0 0 10 10, img 5 5 0 7, img 200 200 10 10] 1000 1000 = Some region \<and>
     (\<exists>reg. reg \<in> set region \<and> r_inside (r_img (img 0 0 10 10)) reg) \<and>
     (\<exists>reg. reg \<in> set region \<and> r_inside (r_img (img 200 200 10 10)) reg) \<and>
     r_points (r_img (img 0 0 10 10)) \<subseteq> (\<Union>reg \<in> set region. r_points reg) \<and>
     r_points (r_img (img 200 200 10 10)) \<subseteq> (\<Union>reg \<in> set region. r_points reg)"
proof -
  let ?B = "\<lparr>x0 = 0, y0 = 0, x1 = 1000, y1 = 1000\<rparr>"
  let ?F = "[img 0 0 10 10, img 5 5 0 7, img 200 200 10 10]"
  have h: "(1 :: int) \<le> 4 \<and> r_surface ?B \<le> INT_MAX \<and>
           (\<forall>p \<in> set ?F. 0 < w p \<and> 0 < h p \<longrightarrow> r_inside (r_img p) ?B)"
    by (simp add: img_def r_inside_def r_img_def r_create_def r_surface_def INT_MAX_def)
  have pos: "0 < w (img 0 0 10 10) \<and> 0 < h (img 0 0 10 10)"
    "0 < w (img 200 200 10 10) \<and> 0 < h (img 200 200 10 10)"
    by (simp_all add: img_def)
  obtain region where r: "BuildRegions True 4 ?F 1000 1000 = Some region"
    using BuildRegions_covers_every_image
            [where i_max_region = 4 and B = ?B and p_img_list = ?F and i_width = 1000
               and i_height = 1000] h
    by blast
  have c: "\<forall>f \<in> set ?F. 0 < w f \<and> 0 < h f \<longrightarrow>
           (\<exists>reg \<in> set region. r_inside (r_img f) reg) \<and>
           r_points (r_img f) \<subseteq> (\<Union>reg \<in> set region. r_points reg)"
    using BuildRegions_covers_every_image
            [where i_max_region = 4 and p_img_list = ?F and i_width = 1000
               and i_height = 1000 and region = region] r
    by blast
  have "(\<exists>reg \<in> set region. r_inside (r_img (img 0 0 10 10)) reg) \<and>
        r_points (r_img (img 0 0 10 10)) \<subseteq> (\<Union>reg \<in> set region. r_points reg)"
    using c pos(1) by simp
  moreover have "(\<exists>reg \<in> set region. r_inside (r_img (img 200 200 10 10)) reg) \<and>
        r_points (r_img (img 200 200 10 10)) \<subseteq> (\<Union>reg \<in> set region. r_points reg)"
    using c pos(2) by simp
  ultimately show ?thesis using r by blast
qed

text \<open>
  Claim C1, at an input where it fails. Seven images on a 1280 by 720 canvas with
  \<open>i_max_region = 4\<close>. After the first five seeds the pair of regions 0 and 1 is merged
  into \<open>(0, 0, 210, 10)\<close>; the sixth image seeds region 4, \<open>(100, 300, 110, 310)\<close>. The
  seventh image, \<open>(100, 30, 110, 280)\<close>, passes the test of line 605 with region 0, of
  surface 2100, and with region 4, of surface 100. The pass merges it into region 0, the
  lowest index, not into the region of smallest surface, and the returned list shows it:
  region 0 is \<open>(0, 0, 210, 280)\<close> and the last region is still \<open>(100, 300, 110, 310)\<close>.
\<close>

theorem absorbed_into_lowest_index_region:
  "BuildRegions True 4
     [img 0 0 10 10, img 200 0 10 10, img 0 600 10 10, img 1200 600 10 10, img 1200 0 10 10,
      img 100 300 10 10, img 100 30 10 250] 1280 720
   = Some [\<lparr>x0 = 0, y0 = 0, x1 = 210, y1 = 280\<rparr>, \<lparr>x0 = 0, y0 = 600, x1 = 10, y1 = 610\<rparr>,
           \<lparr>x0 = 1200, y0 = 0, x1 = 1210, y1 = 610\<rparr>, \<lparr>x0 = 100, y0 = 300, x1 = 110, y1 = 310\<rparr>] \<and>
   tolerances 1280 720 = (32, 32) \<and>
   scan [None, None, None, None, None, None, Some (img 100 30 10 250)]
     [\<lparr>x0 = 0, y0 = 0, x1 = 210, y1 = 10\<rparr>, \<lparr>x0 = 0, y0 = 600, x1 = 10, y1 = 610\<rparr>,
      \<lparr>x0 = 1200, y0 = 600, x1 = 1210, y1 = 610\<rparr>, \<lparr>x0 = 1200, y0 = 0, x1 = 1210, y1 = 10\<rparr>,
      \<lparr>x0 = 100, y0 = 300, x1 = 110, y1 = 310\<rparr>] 32 32 6 False
   = ([None, None, None, None, None, None, None],
      [\<lparr>x0 = 0, y0 = 0, x1 = 210, y1 = 280\<rparr>, \<lparr>x0 = 0, y0 = 600, x1 = 10, y1 = 610\<rparr>,
       \<lparr>x0 = 1200, y0 = 600, x1 = 1210, y1 = 610\<rparr>, \<lparr>x0 = 1200, y0 = 0, x1 = 1210, y1 = 10\<rparr>,
       \<lparr>x0 = 100, y0 = 300, x1 = 110, y1 = 310\<rparr>], 7, True) \<and>
   mergeable 1280 720 \<lparr>x0 = 100, y0 = 300, x1 = 110, y1 = 310\<rparr> (r_img (img 100 30 10 250)) \<and>
   r_surface \<lparr>x0 = 100, y0 = 300, x1 = 110, y1 = 310\<rparr> < r_surface \<lparr>x0 = 0, y0 = 0, x1 = 210, y1 = 10\<rparr>"
  by code_simp

text \<open>
  Claim C2, as stated, fails: on a 1280 by 720 canvas both tolerances are 32, and a
  region \<open>(0, 0, 10, 10)\<close> and an image \<open>(50, 0, 60, 10)\<close>, 40 apart, are not mergeable for
  the code although the two boxes, each expanded by 32, overlap.
\<close>

theorem mergeable_expands_region_only:
  "\<not> mergeable 1280 720 \<lparr>x0 = 0, y0 = 0, x1 = 10, y1 = 10\<rparr> \<lparr>x0 = 50, y0 = 0, x1 = 60, y1 = 10\<rparr> \<and>
   spec_mergeable 1280 720 \<lparr>x0 = 0, y0 = 0, x1 = 10, y1 = 10\<rparr> \<lparr>x0 = 50, y0 = 0, x1 = 60, y1 = 10\<rparr>"
  by (simp add: mergeable_def tolerances_spec r_overlap_def spec_mergeable_def spec_overlap_def
      spec_expand_def spec_dx_def spec_dy_def spec_ceil_div_def)

text \<open>
  Claim C2, amended. When the two tolerances \<open>dx = max(ceil(W/50), 32)\<close> and
  \<open>dy = max(ceil(H/100), 32)\<close> are equal, a region and the rectangle of an image are
  mergeable exactly when the region's box, expanded outward by \<open>dx\<close> on the x axis and
  \<open>dy\<close> on the y axis, overlaps the image's own box, not expanded, with strict inequality
  on both axes.
\<close>

theorem mergeable_iff_expanded_region_overlaps:
  assumes "spec_dx i_width = spec_dy i_height"
  shows "mergeable i_width i_height reg r \<longleftrightarrow>
           spec_overlap (spec_expand reg (spec_dx i_width) (spec_dy i_height)) r"
  using assms
  by (simp add: mergeable_def tolerances_spec r_overlap_def spec_overlap_def spec_expand_def)

theorem mergeable_iff_expanded_region_overlaps_witness:
  "spec_dx 1280 = spec_dy 720 \<and>
   mergeable 1280 720 \<lparr>x0 = 0, y0 = 0, x1 = 10, y1 = 10\<rparr> \<lparr>x0 = 41, y0 = 0, x1 = 51, y1 = 10\<rparr> \<and>
   spec_overlap (spec_expand \<lparr>x0 = 0, y0 = 0, x1 = 10, y1 = 10\<rparr> (spec_dx 1280) (spec_dy 720))
     \<lparr>x0 = 41, y0 = 0, x1 = 51, y1 = 10\<rparr> \<and>
   \<not> mergeable 1280 720 \<lparr>x0 = 0, y0 = 0, x1 = 10, y1 = 10\<rparr> \<lparr>x0 = 42, y0 = 0, x1 = 52, y1 = 10\<rparr>"
proof -
  have h: "spec_dx 1280 = spec_dy 720" by (simp add: spec_dx_def spec_dy_def spec_ceil_div_def)
  have v: "spec_dx 1280 = 32" "spec_dy 720 = 32"
    by (simp_all add: spec_dx_def spec_dy_def spec_ceil_div_def)
  show ?thesis
    using mergeable_iff_expanded_region_overlaps
            [OF h, of "\<lparr>x0 = 0, y0 = 0, x1 = 10, y1 = 10\<rparr>" "\<lparr>x0 = 41, y0 = 0, x1 = 51, y1 = 10\<rparr>"]
          mergeable_iff_expanded_region_overlaps
            [OF h, of "\<lparr>x0 = 0, y0 = 0, x1 = 10, y1 = 10\<rparr>" "\<lparr>x0 = 42, y0 = 0, x1 = 52, y1 = 10\<rparr>"]
    by (simp add: v spec_overlap_def spec_expand_def)
qed

section \<open>Properties of SubpictureUpdate\<close>

text \<open>
  Claim C6. When the renderer reports no change, the visible size of the source and the
  destination format are as at the previous call, and there are images exactly when the
  subpicture already has regions, \<open>SubpictureUpdate\<close> returns at line 454 and the
  subpicture, its region list included, is as it was.
\<close>

theorem unchanged_frame_returns_early:
  assumes "i_changed = 0"
    and "fmt_i_visible_width (video_src cfg) = fmt_i_visible_width (prev_src cfg)"
    and "fmt_i_visible_height (video_src cfg) = fmt_i_visible_height (prev_src cfg)"
    and "video_format_IsSimilar (prev_dst cfg) (video_dst cfg)"
    and "(p_img \<noteq> []) = (regions p_subpic \<noteq> [])"
  shows "SubpictureUpdate video_format_IsSimilar subpicture_region_New calloc_ok p_img i_changed
           cfg p_subpic = Some p_subpic"
  using assms by (simp add: SubpictureUpdate_def Let_def)

theorem unchanged_frame_returns_early_witness:
  "(0 :: int) = 0 \<and>
   SubpictureUpdate (\<lambda>a b. a = b) (\<lambda>fmt. None) True [img 0 0 10 10] 0
     \<lparr>video_src = \<lparr>fmt_i_width = 640, fmt_i_height = 480, fmt_i_visible_width = 640,
                    fmt_i_visible_height = 480, fmt_i_x_offset = 0, fmt_i_y_offset = 0\<rparr>,
      video_dst = \<lparr>fmt_i_width = 1280, fmt_i_height = 720, fmt_i_visible_width = 1280,
                    fmt_i_visible_height = 720, fmt_i_x_offset = 0, fmt_i_y_offset = 0\<rparr>,
      prev_src = \<lparr>fmt_i_width = 640, fmt_i_height = 480, fmt_i_visible_width = 640,
                   fmt_i_visible_height = 480, fmt_i_x_offset = 0, fmt_i_y_offset = 0\<rparr>,
      prev_dst = \<lparr>fmt_i_width = 1280, fmt_i_height = 720, fmt_i_visible_width = 1280,
                   fmt_i_visible_height = 720, fmt_i_x_offset = 0, fmt_i_y_offset = 0\<rparr>\<rparr>
     \<lparr>regions = [\<lparr>i_x = 0, i_y = 0,
                   format = \<lparr>fmt_i_width = 10, fmt_i_height = 10, fmt_i_visible_width = 10,
                      fmt_i_visible_height = 10, fmt_i_x_offset = 0, fmt_i_y_offset = 0\<rparr>,
                   i_pitch = 40, i_visible_lines = 10, p_pixels = []\<rparr>],
      i_original_picture_width = 1280, i_original_picture_height = 720\<rparr>
   = Some \<lparr>regions = [\<lparr>i_x = 0, i_y = 0,
                   format = \<lparr>fmt_i_width = 10, fmt_i_height = 10, fmt_i_visible_width = 10,
                      fmt_i_visible_height = 10, fmt_i_x_offset = 0, fmt_i_y_offset = 0\<rparr>,
                   i_pitch = 40, i_visible_lines = 10, p_pixels = []\<rparr>],
      i_original_picture_width = 1280, i_original_picture_height = 720\<rparr>"
proof -
  have "(0 :: int) = 0" by simp
  then show ?thesis by (intro conjI unchanged_frame_returns_early) simp_all
qed

end
